theory Spec2Isabelle
  imports Main "HOL-Library.Sublist"
begin

section \<open>Strings\<close>

text \<open>
  A Python \<open>str\<close> is modelled as a \<open>string\<close>: one \<open>char\<close> per code point, which
  covers the code points 0 to 255. Everything below that inspects a character compares
  it with an ASCII character (\<open>:\<close>, \<open>/\<close>, the quote, the backslash), as the source does.
\<close>

definition startswith :: "string \<Rightarrow> string \<Rightarrow> bool" where
  \<comment> \<open>\<open>s.startswith(p)\<close>\<close>
  "startswith s p \<longleftrightarrow> take (length p) s = p"

definition endswith :: "string \<Rightarrow> string \<Rightarrow> bool" where
  \<comment> \<open>\<open>s.endswith(t)\<close>\<close>
  "endswith s t \<longleftrightarrow> length t \<le> length s \<and> drop (length s - length t) s = t"

fun split_sep :: "char \<Rightarrow> string \<Rightarrow> string list" where
  \<comment> \<open>\<open>s.split(c)\<close> for a one-character separator: the empty string gives \<open>['']\<close>\<close>
  "split_sep c [] = [[]]"
| "split_sep c (x # xs) =
     (if x = c then [] # split_sep c xs
      else (case split_sep c xs of
              [] \<Rightarrow> [[x]]
            | w # ws \<Rightarrow> (x # w) # ws))"

fun join_sep :: "char \<Rightarrow> string list \<Rightarrow> string" where
  \<comment> \<open>\<open>c.join(ws)\<close>\<close>
  "join_sep c [] = []"
| "join_sep c [w] = w"
| "join_sep c (w # v # ws) = w @ c # join_sep c (v # ws)"

section \<open>Dictionaries\<close>

text \<open>
  A Python \<open>dict\<close> keeps its items in insertion order and \<open>json.dumps\<close> writes them in
  that order, so a dictionary is an association list; \<open>d.get(k)\<close> is \<open>map_of d k\<close>.
\<close>

type_synonym env = "(string \<times> string) list"

definition dict_get :: "env \<Rightarrow> string \<Rightarrow> string \<Rightarrow> string" where
  \<comment> \<open>\<open>d.get(k, default)\<close>\<close>
  "dict_get d k dflt = (case map_of d k of None \<Rightarrow> dflt | Some v \<Rightarrow> v)"

section \<open>The PATH difference (\<open>expose_entry\<close>, lines 140 to 143)\<close>

definition pathsep :: char where
  \<comment> \<open>\<open>os.pathsep\<close>; \<open>main\<close> refuses to run on Windows\<close>
  "pathsep = CHR '':''"

definition new_path :: "string \<Rightarrow> string \<Rightarrow> string" where
  \<comment> \<open>\<open>hook_path[: len(hook_path) - len(current_path)] if hook_path.endswith(current_path)
      else hook_path\<close>\<close>
  "new_path hook_path current_path =
     (if endswith hook_path current_path
      then take (length hook_path - length current_path) hook_path
      else hook_path)"

definition path_segments :: "string \<Rightarrow> string \<Rightarrow> string list" where
  \<comment> \<open>the generator \<open>p for p in new_path.split(os.pathsep) if p\<close>\<close>
  "path_segments hook_path current_path =
     filter (\<lambda>p. p \<noteq> []) (split_sep pathsep (new_path hook_path current_path))"

definition path_diff :: "string \<Rightarrow> string \<Rightarrow> string" where
  "path_diff hook_path current_path =
     join_sep pathsep (path_segments hook_path current_path)"

section \<open>Errors\<close>

datatype os_error = FileNotFoundError | IsADirectoryError | FileExistsError | PermissionError

datatype error =
    ValueError string
  | RuntimeError string
  | TypeError
  | YAMLError
  | OSError os_error

section \<open>The declarative input (\<open>parse_input\<close>)\<close>

text \<open>
  What \<open>yaml.safe_load\<close> returns. Floats, timestamps, binaries and sets are left out: the
  code only asks whether a value is a list, and whether a list element is a string.
\<close>

datatype yaml =
    YNull
  | YBool bool
  | YInt int
  | YStr string
  | YSeq "yaml list"
  | YMap "(yaml \<times> yaml) list"

text \<open>
  The entry is the dictionary \<open>parse_input\<close> builds: the keys \<open>git\<close> and \<open>apps\<close> are always
  there, the other three only when they were stored.
\<close>

record entry =
  git :: string
  apps :: "yaml list"
  ref :: "string option"
  environment :: "string option"
  exclude_env_vars :: "yaml list option"

definition environ_get :: "(string \<rightharpoonup> string) \<Rightarrow> string \<Rightarrow> string \<Rightarrow> string" where
  \<comment> \<open>\<open>os.environ.get(k, default)\<close>\<close>
  "environ_get environ k dflt = (case environ k of None \<Rightarrow> dflt | Some v \<Rightarrow> v)"

definition nonempty_opt :: "string \<Rightarrow> string option" where
  \<comment> \<open>\<open>if x := ...: entry[key] = x\<close>: the key is stored only for a non-empty string\<close>
  "nonempty_opt v = (if v = [] then None else Some v)"

definition quoted :: "string \<Rightarrow> string" where
  \<comment> \<open>the text between two apostrophes\<close>
  "quoted v = CHR 0x27 # v @ [CHR 0x27]"

text \<open>
  \<open>yaml.safe_load\<close> belongs to PyYAML, not to this program: it is the parameter
  \<open>safe_load\<close>, which returns the parsed value or raises.
\<close>

definition parse_input ::
    "(string \<Rightarrow> error + yaml) \<Rightarrow> (string \<rightharpoonup> string) \<Rightarrow> error + entry" where
  "parse_input safe_load environ =
     (let git_url = environ_get environ ''INPUT_GIT'' [] in
      if git_url = [] then Inl (ValueError (quoted ''git'' @ '' input is required''))
      else
        let apps_raw = environ_get environ ''INPUT_APPS'' [] in
        if apps_raw = [] then Inl (ValueError (quoted ''apps'' @ '' input is required''))
        else
          (case safe_load apps_raw of
             Inl err \<Rightarrow> Inl err
           | Inr (YSeq app_list) \<Rightarrow>
               (let e = \<lparr>git = git_url, apps = app_list,
                         ref = nonempty_opt (environ_get environ ''INPUT_REF'' []),
                         environment = nonempty_opt (environ_get environ ''INPUT_ENVIRONMENT'' []),
                         exclude_env_vars = None\<rparr>;
                    exclude_raw = environ_get environ ''INPUT_EXCLUDE_ENV_VARS'' []
                in if exclude_raw = [] then Inr e
                   else
                     (case safe_load exclude_raw of
                        Inl err \<Rightarrow> Inl err
                      | Inr (YSeq exclude) \<Rightarrow> Inr (e\<lparr>exclude_env_vars := Some exclude\<rparr>)
                      | Inr _ \<Rightarrow> Inr e))
           | Inr _ \<Rightarrow> Inl (ValueError (quoted ''apps'' @ '' input must be a YAML list''))))"

section \<open>Variable filtering (\<open>_should_exclude\<close>)\<close>

definition EXCLUDE_EXACT :: "string set" where
  "EXCLUDE_EXACT = {''PATH''}"

definition EXCLUDE_PREFIXES :: "string list" where
  "EXCLUDE_PREFIXES = [''PIXI_'']"

definition should_exclude :: "string \<Rightarrow> yaml list option \<Rightarrow> bool" where
  \<comment> \<open>\<open>key in extra\<close> compares with \<open>==\<close>: a string equals no YAML value but the same string\<close>
  "should_exclude key extra =
     (if key \<in> EXCLUDE_EXACT then True
      else if list_ex (\<lambda>p. startswith key p) EXCLUDE_PREFIXES then True
      else (case extra of None \<Rightarrow> False | Some xs \<Rightarrow> YStr key \<in> set xs))"

definition filtered_env :: "env \<Rightarrow> yaml list option \<Rightarrow> env" where
  \<comment> \<open>\<open>{k: v for k, v in env_vars.items() if not _should_exclude(k, exclude_env_vars)}\<close>\<close>
  "filtered_env env_vars extra = filter (\<lambda>(k, v). \<not> should_exclude k extra) env_vars"

section \<open>Paths (\<open>pathlib\<close> on POSIX)\<close>

text \<open>
  A \<open>pathlib.Path\<close> is compared, joined and printed through its parsed form: the root
  (\<open>''\<close>, \<open>/\<close> or \<open>//\<close>) and the list of components, without the empty ones and without
  \<open>.\<close>. Joining with an absolute path discards what came before.
\<close>

datatype path = PurePath (root: string) (parts: "string list")

definition sep :: char where
  "sep = CHR ''/''"

definition splitroot :: "string \<Rightarrow> string \<times> string" where
  \<comment> \<open>\<open>posixpath.splitroot\<close>: exactly two leading slashes are a root of their own\<close>
  "splitroot p =
     (if take 1 p \<noteq> [sep] then ([], p)
      else if take 1 (drop 1 p) \<noteq> [sep] \<or> take 1 (drop 2 p) = [sep] then ([sep], drop 1 p)
      else (take 2 p, drop 2 p))"

definition Path :: "string \<Rightarrow> path" where
  "Path p =
     (case splitroot p of
        (r, rel) \<Rightarrow> PurePath r (filter (\<lambda>x. x \<noteq> [] \<and> x \<noteq> ''.'') (split_sep sep rel)))"

definition truediv :: "path \<Rightarrow> string \<Rightarrow> path" where
  \<comment> \<open>\<open>p / key\<close>\<close>
  "truediv p key =
     (case Path key of
        PurePath r2 parts2 \<Rightarrow>
          if r2 \<noteq> [] then PurePath r2 parts2 else PurePath (root p) (parts p @ parts2))"

definition path_str :: "path \<Rightarrow> string" where
  \<comment> \<open>\<open>str(p)\<close>\<close>
  "path_str p =
     (let s = root p @ join_sep sep (parts p) in if s = [] then ''.'' else s)"

definition parent :: "path \<Rightarrow> path" where
  \<comment> \<open>\<open>p.parent\<close>: the directory a new entry named by \<open>p\<close> is made in\<close>
  "parent p = PurePath (root p) (butlast (parts p))"

section \<open>The file system\<close>

text \<open>
  Directory entries for regular files name an inode, and an inode holds the bytes: two
  names of one inode (hard links) share their content. Directories are a set of paths;
  nothing here creates or removes one. The model compares paths by their parsed form:
  it does not resolve \<open>..\<close> or symbolic links, and names differing in case differ.
\<close>

record fs =
  dirs :: "path set"
  names :: "path \<rightharpoonup> nat"
  contents :: "nat \<rightharpoonup> string"
  next_inode :: nat

definition write_text :: "fs \<Rightarrow> path \<Rightarrow> string \<Rightarrow> error + fs" where
  \<comment> \<open>\<open>p.write_text(data)\<close>: open for writing, truncate, write\<close>
  "write_text s p data =
     (if p \<in> dirs s then Inl (OSError IsADirectoryError)
      else
        (case names s p of
           Some i \<Rightarrow> Inr (s\<lparr>contents := (contents s)(i \<mapsto> data)\<rparr>)
         | None \<Rightarrow>
             if parent p \<in> dirs s
             then Inr (s\<lparr>names := (names s)(p \<mapsto> next_inode s),
                         contents := (contents s)(next_inode s \<mapsto> data),
                         next_inode := Suc (next_inode s)\<rparr>)
             else Inl (OSError FileNotFoundError)))"

definition read_text :: "fs \<Rightarrow> path \<Rightarrow> error + string" where
  \<comment> \<open>what a later reader of the file finds\<close>
  "read_text s p =
     (if p \<in> dirs s then Inl (OSError IsADirectoryError)
      else
        (case names s p of
           None \<Rightarrow> Inl (OSError FileNotFoundError)
         | Some i \<Rightarrow> (case contents s i of None \<Rightarrow> Inr [] | Some data \<Rightarrow> Inr data)))"

definition unlink_missing_ok :: "fs \<Rightarrow> path \<Rightarrow> error + fs" where
  \<comment> \<open>\<open>p.unlink(missing_ok=True)\<close>\<close>
  "unlink_missing_ok s p =
     (if p \<in> dirs s then Inl (OSError IsADirectoryError)
      else Inr (s\<lparr>names := (names s)(p := None)\<rparr>))"

definition link :: "fs \<Rightarrow> path \<Rightarrow> path \<Rightarrow> error + fs" where
  \<comment> \<open>\<open>os.link(src, dst)\<close>\<close>
  "link s src dst =
     (case names s src of
        None \<Rightarrow> Inl (OSError (if src \<in> dirs s then PermissionError else FileNotFoundError))
      | Some i \<Rightarrow>
          if dst \<in> dirs s \<or> names s dst \<noteq> None then Inl (OSError FileExistsError)
          else if parent dst \<in> dirs s then Inr (s\<lparr>names := (names s)(dst \<mapsto> i)\<rparr>)
          else Inl (OSError FileNotFoundError))"

section \<open>JSON (\<open>json.dumps\<close> with \<open>indent=2\<close>, \<open>json.loads\<close>)\<close>

text \<open>
  The configuration is a dictionary of strings and of one dictionary of strings, so
  the JSON values are strings and objects. An object keeps its members in order.
\<close>

datatype json = JStr string | JObj "(string \<times> json) list"

definition hex_digit :: "nat \<Rightarrow> char" where
  "hex_digit n = ''0123456789abcdef'' ! (n mod 16)"

definition escape_char :: "char \<Rightarrow> string" where
  \<comment> \<open>\<open>py_encode_basestring_ascii\<close>: the short escapes, then \<open>\\u00xx\<close> for whatever is
      not between the space and the tilde\<close>
  "escape_char c =
     (if c = CHR 0x22 then [CHR 0x5C, CHR 0x22]
      else if c = CHR 0x5C then [CHR 0x5C, CHR 0x5C]
      else if c = CHR 0x0A then [CHR 0x5C, CHR ''n'']
      else if c = CHR 0x0D then [CHR 0x5C, CHR ''r'']
      else if c = CHR 0x09 then [CHR 0x5C, CHR ''t'']
      else if c = CHR 0x08 then [CHR 0x5C, CHR ''b'']
      else if c = CHR 0x0C then [CHR 0x5C, CHR ''f'']
      else if 0x20 \<le> (of_char c :: nat) \<and> (of_char c :: nat) \<le> 0x7E then [c]
      else [CHR 0x5C, CHR ''u'', CHR ''0'', CHR ''0'',
            hex_digit ((of_char c :: nat) div 16), hex_digit (of_char c :: nat)])"

definition encode_str :: "string \<Rightarrow> string" where
  "encode_str v = CHR 0x22 # concat (map escape_char v) @ [CHR 0x22]"

definition newline_indent :: "nat \<Rightarrow> string" where
  \<comment> \<open>\<open>'\\n' + _indent * _current_indent_level\<close> with an indent of two spaces\<close>
  "newline_indent level = CHR 0x0A # replicate (2 * level) CHR '' ''"

fun encode_json :: "nat \<Rightarrow> json \<Rightarrow> string"
  and encode_items :: "nat \<Rightarrow> (string \<times> json) list \<Rightarrow> string" where
  "encode_json level (JStr v) = encode_str v"
| "encode_json level (JObj []) = ''{}''"
| "encode_json level (JObj (i # items)) =
     ''{'' @ newline_indent (Suc level) @ encode_items (Suc level) (i # items)
       @ newline_indent level @ ''}''"
| "encode_items level [] = []"
| "encode_items level [(k, v)] = encode_str k @ '': '' @ encode_json level v"
| "encode_items level ((k, v) # i # items) =
     encode_str k @ '': '' @ encode_json level v @ '','' @ newline_indent level
       @ encode_items level (i # items)"

definition json_dumps :: "json \<Rightarrow> string" where
  "json_dumps v = encode_json 0 v"

definition is_ws :: "char \<Rightarrow> bool" where
  \<comment> \<open>the decoder's \<open>WHITESPACE\<close>: space, tab, line feed, carriage return\<close>
  "is_ws c \<longleftrightarrow> c = CHR 0x20 \<or> c = CHR 0x09 \<or> c = CHR 0x0A \<or> c = CHR 0x0D"

definition skip_ws :: "string \<Rightarrow> string" where
  "skip_ws s = dropWhile is_ws s"

definition hex_value :: "char \<Rightarrow> nat option" where
  "hex_value c =
     (let n = (of_char c :: nat) in
      if 0x30 \<le> n \<and> n \<le> 0x39 then Some (n - 0x30)
      else if 0x61 \<le> n \<and> n \<le> 0x66 then Some (n - 0x61 + 10)
      else if 0x41 \<le> n \<and> n \<le> 0x46 then Some (n - 0x41 + 10)
      else None)"

definition unescape :: "char \<Rightarrow> char option" where
  \<comment> \<open>the decoder's \<open>BACKSLASH\<close> table\<close>
  "unescape c =
     (if c = CHR 0x22 then Some (CHR 0x22)
      else if c = CHR 0x5C then Some (CHR 0x5C)
      else if c = CHR ''/'' then Some (CHR ''/'')
      else if c = CHR ''b'' then Some (CHR 0x08)
      else if c = CHR ''f'' then Some (CHR 0x0C)
      else if c = CHR ''n'' then Some (CHR 0x0A)
      else if c = CHR ''r'' then Some (CHR 0x0D)
      else if c = CHR ''t'' then Some (CHR 0x09)
      else None)"

definition decode_uXXXX :: "char \<Rightarrow> char \<Rightarrow> char \<Rightarrow> char \<Rightarrow> char option" where
  \<comment> \<open>four hexadecimal digits; a code point above 255 has no \<open>char\<close> and is refused here\<close>
  "decode_uXXXX a b c d =
     (case (hex_value a, hex_value b, hex_value c, hex_value d) of
        (Some h3, Some h2, Some h1, Some h0) \<Rightarrow>
          if h3 = 0 \<and> h2 = 0 then Some (char_of (16 * h1 + h0)) else None
      | _ \<Rightarrow> None)"

definition cons_result :: "'a \<Rightarrow> ('a list \<times> string) option \<Rightarrow> ('a list \<times> string) option" where
  "cons_result x r = (case r of None \<Rightarrow> None | Some (xs, rest) \<Rightarrow> Some (x # xs, rest))"

fun scanstring :: "string \<Rightarrow> (string \<times> string) option" where
  \<comment> \<open>\<open>py_scanstring\<close> in strict mode, from the character after the opening quote: the
      string and what follows its closing quote\<close>
  "scanstring [] = None"
| "scanstring (c # cs) =
     (if c = CHR 0x22 then Some ([], cs)
      else if c = CHR 0x5C then
        (case cs of
           [] \<Rightarrow> None
         | e # cs1 \<Rightarrow>
             if e = CHR ''u'' then
               (case cs1 of
                  h3 # h2 # h1 # h0 # cs2 \<Rightarrow>
                    (case decode_uXXXX h3 h2 h1 h0 of
                       None \<Rightarrow> None
                     | Some ch \<Rightarrow> cons_result ch (scanstring cs2))
                | _ \<Rightarrow> None)
             else
               (case unescape e of
                  None \<Rightarrow> None
                | Some ch \<Rightarrow> cons_result ch (scanstring cs1)))
      else if (of_char c :: nat) < 0x20 then None
      else cons_result c (scanstring cs))"

fun dict_update :: "(string \<times> 'v) list \<Rightarrow> string \<Rightarrow> 'v \<Rightarrow> (string \<times> 'v) list" where
  \<comment> \<open>\<open>d[k] = v\<close>: a key that is there keeps its place\<close>
  "dict_update [] k v = [(k, v)]"
| "dict_update ((k', v') # d) k v =
     (if k' = k then (k, v) # d else (k', v') # dict_update d k v)"

definition dict_of_pairs :: "(string \<times> 'v) list \<Rightarrow> (string \<times> 'v) list" where
  \<comment> \<open>\<open>dict(pairs)\<close>\<close>
  "dict_of_pairs pairs = fold (\<lambda>(k, v) d. dict_update d k v) pairs []"

text \<open>
  The decoder calls itself for a value inside an object. The fuel bounds the number of
  these calls; every call consumes a character first, so the length of the text is
  enough fuel for every text.
\<close>

fun scan_once :: "nat \<Rightarrow> string \<Rightarrow> (json \<times> string) option"
  and scan_members :: "nat \<Rightarrow> string \<Rightarrow> ((string \<times> json) list \<times> string) option" where
  "scan_once 0 s = None"
| "scan_once (Suc n) [] = None"
| "scan_once (Suc n) (c # cs) =
     (if c = CHR 0x22 then
        (case scanstring cs of None \<Rightarrow> None | Some (v, rest) \<Rightarrow> Some (JStr v, rest))
      else if c = CHR ''{'' then
        (case skip_ws cs of
           [] \<Rightarrow> None
         | d # ds \<Rightarrow>
             if d = CHR ''}'' then Some (JObj [], ds)
             else
               (case scan_members n (d # ds) of
                  None \<Rightarrow> None
                | Some (pairs, rest) \<Rightarrow> Some (JObj (dict_of_pairs pairs), rest)))
      else None)"
| "scan_members 0 s = None"
| "scan_members (Suc n) [] = None"
| "scan_members (Suc n) (q # s) =
     (if q \<noteq> CHR 0x22 then None
      else
        (case scanstring s of
           None \<Rightarrow> None
         | Some (key, s1) \<Rightarrow>
             (case skip_ws s1 of
                [] \<Rightarrow> None
              | c # s2 \<Rightarrow>
                  if c \<noteq> CHR '':'' then None
                  else
                    (case scan_once n (skip_ws s2) of
                       None \<Rightarrow> None
                     | Some (v, s3) \<Rightarrow>
                         (case skip_ws s3 of
                            [] \<Rightarrow> None
                          | d # s4 \<Rightarrow>
                              if d = CHR ''}'' then Some ([(key, v)], s4)
                              else if d = CHR '','' then
                                cons_result (key, v) (scan_members n (skip_ws s4))
                              else None)))))"

definition json_loads :: "string \<Rightarrow> json option" where
  \<comment> \<open>\<open>JSONDecoder.decode\<close>: leading white space, one value, nothing but white space after\<close>
  "json_loads s =
     (case scan_once (length s) (skip_ws s) of
        None \<Rightarrow> None
      | Some (v, rest) \<Rightarrow> if skip_ws rest = [] then Some v else None)"

section \<open>Publication (\<open>expose_entry\<close>)\<close>

definition config :: "string \<Rightarrow> string \<Rightarrow> env \<Rightarrow> json" where
  \<comment> \<open>\<open>{'exe': str(exe_path), 'path_diff': path_diff, 'env': filtered_env}\<close>\<close>
  "config exe pd fenv =
     JObj [(''exe'', JStr exe), (''path_diff'', JStr pd),
           (''env'', JObj (map (\<lambda>(k, v). (k, JStr v)) fenv))]"

definition bin_dir :: "path \<Rightarrow> path" where
  "bin_dir pixi_home = truediv pixi_home ''bin''"

definition config_dir :: "path \<Rightarrow> path" where
  "config_dir pixi_home = truediv (bin_dir pixi_home) ''trampoline_configuration''"

definition get_trampoline_bin :: "path \<Rightarrow> path" where
  "get_trampoline_bin pixi_home =
     truediv (truediv (truediv pixi_home ''bin'') ''trampoline_configuration'') ''trampoline_bin''"

definition config_path :: "path \<Rightarrow> string \<Rightarrow> path" where
  \<comment> \<open>\<open>config_dir / f'{app}.json'\<close>\<close>
  "config_path pixi_home app = truediv (config_dir pixi_home) (app @ ''.json'')"

definition exe_path :: "string \<Rightarrow> string \<Rightarrow> path" where
  \<comment> \<open>\<open>Path(conda_prefix) / 'bin' / app\<close>\<close>
  "exe_path conda_prefix app = truediv (truediv (Path conda_prefix) ''bin'') app"

definition link_path :: "path \<Rightarrow> string \<Rightarrow> path" where
  \<comment> \<open>\<open>bin_dir / app\<close>\<close>
  "link_path pixi_home app = truediv (bin_dir pixi_home) app"

text \<open>
  One turn of the loop over \<open>entry['apps']\<close>. The state comes back with what was done
  before an exception, and with the exception. A list element that is not a string
  makes \<open>Path(...) / app\<close> raise \<open>TypeError\<close> before anything is written for it.
\<close>

definition publish_app ::
    "path \<Rightarrow> string \<Rightarrow> string \<Rightarrow> env \<Rightarrow> yaml \<Rightarrow> fs \<Rightarrow> fs \<times> error option" where
  "publish_app pixi_home conda_prefix pd fenv app s =
     (case app of
        YStr name \<Rightarrow>
          (case write_text s (config_path pixi_home name)
                  (json_dumps (config (path_str (exe_path conda_prefix name)) pd fenv)) of
             Inl err \<Rightarrow> (s, Some err)
           | Inr s1 \<Rightarrow>
               (case unlink_missing_ok s1 (link_path pixi_home name) of
                  Inl err \<Rightarrow> (s1, Some err)
                | Inr s2 \<Rightarrow>
                    (case link s2 (get_trampoline_bin pixi_home) (link_path pixi_home name) of
                       Inl err \<Rightarrow> (s2, Some err)
                     | Inr s3 \<Rightarrow> (s3, None))))
      | _ \<Rightarrow> (s, Some TypeError))"

fun publish_apps ::
    "path \<Rightarrow> string \<Rightarrow> string \<Rightarrow> env \<Rightarrow> yaml list \<Rightarrow> fs \<Rightarrow> fs \<times> error option" where
  "publish_apps pixi_home conda_prefix pd fenv [] s = (s, None)"
| "publish_apps pixi_home conda_prefix pd fenv (app # rest) s =
     (case publish_app pixi_home conda_prefix pd fenv app s of
        (s1, Some err) \<Rightarrow> (s1, Some err)
      | (s1, None) \<Rightarrow> publish_apps pixi_home conda_prefix pd fenv rest s1)"

definition missing_prefix_message :: "string \<Rightarrow> string" where
  "missing_prefix_message env_name =
     ''CONDA_PREFIX not found in shell-hook output for environment '' @ quoted env_name"

text \<open>
  \<open>expose_entry\<close> after the three external steps (clone, install, shell hook):
  \<open>env_vars\<close> is \<open>hook['environment_variables']\<close>, \<open>current_path\<close> is
  \<open>os.environ.get('PATH', '')\<close> and \<open>pixi_home\<close> is \<open>get_pixi_home()\<close>.
\<close>

definition expose_entry ::
    "path \<Rightarrow> env \<Rightarrow> string \<Rightarrow> entry \<Rightarrow> fs \<Rightarrow> fs \<times> error option" where
  "expose_entry pixi_home env_vars current_path e s =
     (let env_name = (case environment e of None \<Rightarrow> ''default'' | Some n \<Rightarrow> n) in
      case map_of env_vars ''CONDA_PREFIX'' of
        None \<Rightarrow> (s, Some (RuntimeError (missing_prefix_message env_name)))
      | Some conda_prefix \<Rightarrow>
          if conda_prefix = []
          then (s, Some (RuntimeError (missing_prefix_message env_name)))
          else
            publish_apps pixi_home conda_prefix
              (path_diff (dict_get env_vars ''PATH'' []) current_path)
              (filtered_env env_vars (exclude_env_vars e)) (apps e) s)"

section \<open>Notions used to state the properties\<close>

definition plain_name :: "string \<Rightarrow> bool" where
  \<comment> \<open>a name that is one path component\<close>
  "plain_name a \<longleftrightarrow> a \<noteq> [] \<and> a \<noteq> ''.'' \<and> a \<noteq> ''..'' \<and> sep \<notin> set a"

fun json_size :: "json \<Rightarrow> nat" and items_size :: "(string \<times> json) list \<Rightarrow> nat" where
  \<comment> \<open>the number of values and members: the fuel the decoder needs for them\<close>
  "json_size (JStr v) = 1"
| "json_size (JObj items) = Suc (items_size items)"
| "items_size [] = 0"
| "items_size ((k, v) # items) = Suc (json_size v + items_size items)"

fun dict_json :: "json \<Rightarrow> bool" and dict_items :: "(string \<times> json) list \<Rightarrow> bool" where
  \<comment> \<open>no object has a key twice, as in a Python dictionary\<close>
  "dict_json (JStr v) = True"
| "dict_json (JObj items) = (distinct (map fst items) \<and> dict_items items)"
| "dict_items [] = True"
| "dict_items ((k, v) # items) = (dict_json v \<and> dict_items items)"

definition config_text :: "string \<Rightarrow> string \<Rightarrow> env \<Rightarrow> string \<Rightarrow> string" where
  \<comment> \<open>the text written for a name\<close>
  "config_text conda_prefix pd fenv name =
     json_dumps (config (path_str (exe_path conda_prefix name)) pd fenv)"

definition inode_of :: "fs \<Rightarrow> path \<Rightarrow> nat" where
  "inode_of s p = (case names s p of None \<Rightarrow> 0 | Some i \<Rightarrow> i)"

definition store_text ::
    "(string \<Rightarrow> nat) \<Rightarrow> (string \<Rightarrow> string) \<Rightarrow> string \<Rightarrow> (nat \<rightharpoonup> string) \<Rightarrow> (nat \<rightharpoonup> string)" where
  \<comment> \<open>the text of a name, stored in the inode of a name\<close>
  "store_text f g n c = c(f n \<mapsto> g n)"

definition published :: "path \<Rightarrow> string list \<Rightarrow> fs \<Rightarrow> bool" where
  \<comment> \<open>every name has its configuration file, and its link names the inode of the
      dispatch binary\<close>
  "published pixi_home ns s \<longleftrightarrow>
     (\<forall>n \<in> set ns.
        (\<exists>t. names s (get_trampoline_bin pixi_home) = Some t
              \<and> names s (link_path pixi_home n) = Some t)
              \<and> names s (config_path pixi_home n) \<noteq> None
              \<and> config_path pixi_home n \<notin> dirs s
              \<and> link_path pixi_home n \<notin> dirs s
              \<and> parent (link_path pixi_home n) \<in> dirs s)"

text \<open>
  A small installation for the examples: the directories of the shared bin root and
  \<open>/usr/bin\<close>, the dispatch binary as inode 0, and a captured environment.
\<close>

definition example_home :: path where
  "example_home = Path ''/h/.pixi''"

definition example_fs :: fs where
  "example_fs =
     \<lparr>dirs = {Path ''/h/.pixi/bin'', Path ''/h/.pixi/bin/trampoline_configuration'',
              Path ''/usr/bin''},
      names = [get_trampoline_bin example_home \<mapsto> 0],
      contents = [0 \<mapsto> ''ELF''],
      next_inode = 1\<rparr>"

definition example_env :: env where
  "example_env =
     [(''CONDA_PREFIX'', ''/e''), (''PATH'', ''/e/bin:/usr/bin''), (''PIXI_X'', ''1''),
      (''FOO'', ''1'')]"

definition example_entry :: "string list \<Rightarrow> entry" where
  "example_entry as =
     \<lparr>git = ''https://example.org/r.git'', apps = map YStr as, ref = None,
      environment = None, exclude_env_vars = None\<rparr>"

definition example_published :: fs where
  \<comment> \<open>\<open>example_fs\<close> after \<open>tool\<close> was published\<close>
  "example_published =
     \<lparr>dirs = {Path ''/h/.pixi/bin'', Path ''/h/.pixi/bin/trampoline_configuration'',
              Path ''/usr/bin''},
      names = [get_trampoline_bin example_home \<mapsto> 0,
               config_path example_home ''tool'' \<mapsto> 1,
               link_path example_home ''tool'' \<mapsto> 0],
      contents = [0 \<mapsto> ''ELF'',
         1 \<mapsto> json_dumps (config ''/e/bin/tool'' ''/e/bin''
                [(''CONDA_PREFIX'', ''/e''), (''FOO'', ''1'')])],
      next_inode = 2\<rparr>"

definition example_fs_nested :: fs where
  \<comment> \<open>an installation whose configuration directory has a directory of the same name
      inside\<close>
  "example_fs_nested =
     \<lparr>dirs = {Path ''/h/.pixi/bin'', Path ''/h/.pixi/bin/trampoline_configuration'',
              Path ''/h/.pixi/bin/trampoline_configuration/trampoline_configuration''},
      names = [get_trampoline_bin example_home \<mapsto> 0],
      contents = [0 \<mapsto> ''ELF''],
      next_inode = 1\<rparr>"

definition example_aliased :: fs where
  \<comment> \<open>\<open>example_fs_nested\<close> after \<open>a\<close> and \<open>trampoline_configuration/a.json\<close> were
      published: the link of the second name has taken the place of the configuration
      file of the first\<close>
  "example_aliased =
     \<lparr>dirs = {Path ''/h/.pixi/bin'', Path ''/h/.pixi/bin/trampoline_configuration'',
              Path ''/h/.pixi/bin/trampoline_configuration/trampoline_configuration''},
      names = [get_trampoline_bin example_home \<mapsto> 0,
               link_path example_home ''a'' \<mapsto> 0,
               config_path example_home ''trampoline_configuration/a.json'' \<mapsto> 2,
               config_path example_home ''a'' \<mapsto> 0],
      contents = [0 \<mapsto> ''ELF'',
         1 \<mapsto> config_text ''/e'' ''/e/bin'' [(''CONDA_PREFIX'', ''/e''), (''FOO'', ''1'')] ''a'',
         2 \<mapsto> config_text ''/e'' ''/e/bin'' [(''CONDA_PREFIX'', ''/e''), (''FOO'', ''1'')]
                ''trampoline_configuration/a.json''],
      next_inode = 3\<rparr>"

definition example_safe_load :: "string \<Rightarrow> error + yaml" where
  \<comment> \<open>what \<open>yaml.safe_load\<close> returns for the three documents of the examples; no other
      document is passed to it\<close>
  "example_safe_load doc =
     (if doc = ''[]'' then Inr (YSeq [])
      else if doc = ''[tool]'' then Inr (YSeq [YStr ''tool''])
      else if doc = ''HOME'' then Inr (YStr ''HOME'')
      else Inl YAMLError)"

section \<open>Facts about the string operations\<close>

lemma endswith_iff_suffix: "endswith s t \<longleftrightarrow> suffix t s"
proof
  assume "endswith s t"
  then have "s = take (length s - length t) s @ t"
    by (metis append_take_drop_id endswith_def)
  then show "suffix t s"
    by (rule suffixI)
next
  assume "suffix t s"
  then obtain p where "s = p @ t"
    by (auto simp: suffix_def)
  then show "endswith s t"
    by (simp add: endswith_def)
qed

lemma startswith_iff_prefix: "startswith s p \<longleftrightarrow> prefix p s"
  by (metis append_eq_conv_conj prefix_def startswith_def)

lemma split_sep_not_Nil [simp]: "split_sep c s \<noteq> []"
  by (induction s) (auto split: list.splits)

lemma join_sep_Cons: "ws \<noteq> [] \<Longrightarrow> join_sep c (w # ws) = w @ c # join_sep c ws"
  by (cases ws) simp_all

lemma join_split_sep: "join_sep c (split_sep c s) = s"
proof (induction s)
  case Nil
  show ?case by simp
next
  case (Cons x xs)
  show ?case
  proof (cases "x = c")
    case True
    with Cons show ?thesis
      by (simp add: join_sep_Cons)
  next
    case False
    obtain w ws where split: "split_sep c xs = w # ws"
      by (cases "split_sep c xs") simp_all
    with Cons False show ?thesis
      by (cases ws) auto
  qed
qed

lemma split_sep_free: "seg \<in> set (split_sep c s) \<Longrightarrow> c \<notin> set seg"
  by (induction s arbitrary: seg) (auto split: if_splits list.splits)

lemma concat_split_sep: "concat (split_sep c s) = filter (\<lambda>x. x \<noteq> c) s"
  by (induction s) (auto split: list.splits)

lemma concat_filter_nonempty: "concat (filter (\<lambda>p. p \<noteq> []) ws) = concat ws"
  by (induction ws) auto

section \<open>The PATH difference\<close>

text \<open>
  Claim C1. When the hook PATH is some text followed by the ambient PATH, the region
  that is split is that text; when the ambient PATH is not a suffix of the hook PATH,
  the region is the whole hook PATH. The region is split at the separator (joining the
  pieces with the separator gives the region back, and no piece holds a separator),
  the empty pieces are dropped and the others keep their order (their concatenation
  is the region without its separators). \<open>path_diff\<close> joins them again.
\<close>

theorem path_diff_algorithm:
  "(\<forall>p. hook_path = p @ current_path \<longrightarrow> new_path hook_path current_path = p)
   \<and> (\<not> suffix current_path hook_path \<longrightarrow> new_path hook_path current_path = hook_path)
   \<and> path_segments hook_path current_path =
       filter (\<lambda>seg. seg \<noteq> []) (split_sep pathsep (new_path hook_path current_path))
   \<and> join_sep pathsep (split_sep pathsep (new_path hook_path current_path)) =
       new_path hook_path current_path
   \<and> (\<forall>seg. seg \<in> set (split_sep pathsep (new_path hook_path current_path)) \<longrightarrow>
         pathsep \<notin> set seg)
   \<and> concat (path_segments hook_path current_path) =
       filter (\<lambda>x. x \<noteq> pathsep) (new_path hook_path current_path)
   \<and> path_diff hook_path current_path = join_sep pathsep (path_segments hook_path current_path)"
proof -
  have a: "\<forall>p. hook_path = p @ current_path \<longrightarrow> new_path hook_path current_path = p"
    by (simp add: new_path_def endswith_def)
  have b: "\<not> suffix current_path hook_path \<longrightarrow> new_path hook_path current_path = hook_path"
    by (simp add: new_path_def endswith_iff_suffix)
  have c: "concat (path_segments hook_path current_path) =
       filter (\<lambda>x. x \<noteq> pathsep) (new_path hook_path current_path)"
    by (simp add: path_segments_def concat_filter_nonempty concat_split_sep)
  show ?thesis
    using a b c
    by (simp add: path_segments_def path_diff_def join_split_sep split_sep_free)
qed

theorem path_diff_algorithm_witness:
  "''X:Y:A:B'' = ''X:Y:'' @ ''A:B''
   \<and> path_segments ''X:Y:A:B'' ''A:B'' = [''X'', ''Y'']
   \<and> \<not> suffix ''A:B'' ''Z:Q''
   \<and> path_segments ''Z:Q'' ''A:B'' = [''Z'', ''Q'']"
proof -
  have s: "''X:Y:A:B'' = ''X:Y:'' @ ''A:B''" by simp
  have n: "\<not> suffix ''A:B'' ''Z:Q''" by (simp add: suffix_to_prefix)
  have 1: "new_path ''X:Y:A:B'' ''A:B'' = ''X:Y:''"
    using path_diff_algorithm [of "''X:Y:A:B''" "''A:B''"] s by blast
  have 2: "new_path ''Z:Q'' ''A:B'' = ''Z:Q''"
    using path_diff_algorithm [of "''Z:Q''" "''A:B''"] n by blast
  show ?thesis
    using s n 1 2 path_diff_algorithm [of "''X:Y:A:B''" "''A:B''"]
      path_diff_algorithm [of "''Z:Q''" "''A:B''"]
    by (simp add: pathsep_def)
qed

section \<open>Variable filtering\<close>

lemma should_exclude_iff:
  "should_exclude k extra \<longleftrightarrow>
     k = ''PATH'' \<or> prefix ''PIXI_'' k \<or> (\<exists>xs. extra = Some xs \<and> YStr k \<in> set xs)"
  by (auto simp: should_exclude_def EXCLUDE_EXACT_def EXCLUDE_PREFIXES_def
      startswith_iff_prefix split: option.splits)

lemma map_of_filter_keys:
  "map_of (filter (\<lambda>(k, v). P k) xs) k = (if P k then map_of xs k else None)"
  by (induction xs) auto

text \<open>
  Claim C2. A name is suppressed exactly when it is \<open>PATH\<close>, or starts with \<open>PIXI_\<close>, or
  an exclusion list was supplied and holds it. The published environment is the
  captured one without the suppressed names, with the values unchanged. The
  environment of the specification's example, with \<open>HOME\<close> excluded, is filtered to
  \<open>FOO\<close> alone.
\<close>

theorem variable_filtering:
  "(should_exclude k extra \<longleftrightarrow>
      k = ''PATH'' \<or> prefix ''PIXI_'' k \<or> (\<exists>xs. extra = Some xs \<and> YStr k \<in> set xs))
   \<and> ((k, v) \<in> set (filtered_env env_vars extra) \<longleftrightarrow>
        (k, v) \<in> set env_vars \<and> \<not> should_exclude k extra)
   \<and> map_of (filtered_env env_vars extra) k =
       (if should_exclude k extra then None else map_of env_vars k)
   \<and> filtered_env
         [(''PATH'', ''...''), (''PIXI_FOO'', ''x''), (''HOME'', ''/h''), (''FOO'', ''1'')]
         (Some [YStr ''HOME'']) = [(''FOO'', ''1'')]"
proof -
  have ex: "filtered_env
         [(''PATH'', ''...''), (''PIXI_FOO'', ''x''), (''HOME'', ''/h''), (''FOO'', ''1'')]
         (Some [YStr ''HOME'']) = [(''FOO'', ''1'')]"
    by (simp add: filtered_env_def should_exclude_def EXCLUDE_EXACT_def EXCLUDE_PREFIXES_def
        startswith_def)
  have m: "map_of (filtered_env env_vars extra) k =
       (if should_exclude k extra then None else map_of env_vars k)"
    unfolding filtered_env_def
    using map_of_filter_keys [of "\<lambda>k. \<not> should_exclude k extra" env_vars k] by simp
  show ?thesis
    using ex m should_exclude_iff [of k extra] by (auto simp: filtered_env_def)
qed

section \<open>The active prefix\<close>

text \<open>
  Claim C3. When the captured environment has no \<open>CONDA_PREFIX\<close>, \<open>expose_entry\<close> raises
  a \<open>RuntimeError\<close> whose message ends with the name of the environment between
  apostrophes (\<open>default\<close> when the entry names none), and the file system is as it was:
  no configuration and no link is written.
\<close>

theorem missing_active_prefix:
  "map_of env_vars ''CONDA_PREFIX'' = None \<Longrightarrow>
   expose_entry pixi_home env_vars current_path e s =
     (s, Some (RuntimeError
        (''CONDA_PREFIX not found in shell-hook output for environment ''
          @ [CHR 0x27] @ (case environment e of None \<Rightarrow> ''default'' | Some n \<Rightarrow> n)
          @ [CHR 0x27])))"
  by (simp add: expose_entry_def missing_prefix_message_def quoted_def)

theorem missing_active_prefix_witness:
  "map_of [(''PATH'', ''/e/bin:/usr/bin'')] ''CONDA_PREFIX'' = None
   \<and> expose_entry (Path ''/h/.pixi'') [(''PATH'', ''/e/bin:/usr/bin'')] ''/usr/bin''
       \<lparr>git = ''https://example.org/r.git'', apps = [YStr ''tool''], ref = None,
        environment = Some ''dev'', exclude_env_vars = None\<rparr>
       \<lparr>dirs = {}, names = Map.empty, contents = Map.empty, next_inode = 0\<rparr> =
     (\<lparr>dirs = {}, names = Map.empty, contents = Map.empty, next_inode = 0\<rparr>,
      Some (RuntimeError
        (''CONDA_PREFIX not found in shell-hook output for environment ''
          @ [CHR 0x27] @ ''dev'' @ [CHR 0x27])))"
proof -
  have h: "map_of [(''PATH'', ''/e/bin:/usr/bin'')] ''CONDA_PREFIX'' = None"
    by simp
  show ?thesis
    using h missing_active_prefix [OF h, of "Path ''/h/.pixi''" "''/usr/bin''"
      "\<lparr>git = ''https://example.org/r.git'', apps = [YStr ''tool''], ref = None,
        environment = Some ''dev'', exclude_env_vars = None\<rparr>"
      "\<lparr>dirs = {}, names = Map.empty, contents = Map.empty, next_inode = 0\<rparr>"]
    by simp
qed

lemma map_of_remove_key: "map_of (filter (\<lambda>(k, v). k \<noteq> x) xs) x = None"
  by (induction xs) auto

text \<open>
  Claim C9. A \<open>CONDA_PREFIX\<close> that is there with the empty string as its value is
  treated as a missing one: the same error with the same message, the file system
  untouched, and the same result as for the environment without the variable.
\<close>

theorem empty_active_prefix:
  "map_of env_vars ''CONDA_PREFIX'' = Some [] \<Longrightarrow>
   expose_entry pixi_home env_vars current_path e s =
     (s, Some (RuntimeError (missing_prefix_message
        (case environment e of None \<Rightarrow> ''default'' | Some n \<Rightarrow> n))))
   \<and> expose_entry pixi_home env_vars current_path e s =
       expose_entry pixi_home (filter (\<lambda>(k, v). k \<noteq> ''CONDA_PREFIX'') env_vars)
         current_path e s"
  by (simp add: expose_entry_def map_of_remove_key)

theorem empty_active_prefix_witness:
  "map_of [(''CONDA_PREFIX'', []), (''PATH'', ''/e/bin'')] ''CONDA_PREFIX'' = Some []
   \<and> expose_entry (Path ''/h/.pixi'') [(''CONDA_PREFIX'', []), (''PATH'', ''/e/bin'')] []
       \<lparr>git = ''https://example.org/r.git'', apps = [YStr ''tool''], ref = None,
        environment = None, exclude_env_vars = None\<rparr>
       \<lparr>dirs = {}, names = Map.empty, contents = Map.empty, next_inode = 0\<rparr> =
     (\<lparr>dirs = {}, names = Map.empty, contents = Map.empty, next_inode = 0\<rparr>,
      Some (RuntimeError (missing_prefix_message ''default'')))"
proof -
  have h: "map_of [(''CONDA_PREFIX'', []), (''PATH'', ''/e/bin'')] ''CONDA_PREFIX'' = Some []"
    by simp
  show ?thesis
    using h empty_active_prefix [OF h, of "Path ''/h/.pixi''" "[]"
      "\<lparr>git = ''https://example.org/r.git'', apps = [YStr ''tool''], ref = None,
        environment = None, exclude_env_vars = None\<rparr>"
      "\<lparr>dirs = {}, names = Map.empty, contents = Map.empty, next_inode = 0\<rparr>"]
    by simp
qed

section \<open>The suffix test and the entries of the PATH\<close>

lemma split_sep_append:
  "split_sep c (s @ t) =
     butlast (split_sep c s) @ (last (split_sep c s) @ hd (split_sep c t)) # tl (split_sep c t)"
proof (induction s)
  case Nil
  show ?case by (cases "split_sep c t") simp_all
next
  case (Cons x xs)
  obtain w ws where w: "split_sep c xs = w # ws"
    by (cases "split_sep c xs") simp_all
  show ?case
  proof (cases "x = c")
    case True
    with Cons show ?thesis by simp
  next
    case False
    show ?thesis
    proof (cases ws)
      case Nil
      with Cons False w show ?thesis by simp
    next
      case (Cons v vs)
      with Cons.IH False w show ?thesis by simp
    qed
  qed
qed

lemma last_filter_keep: "xs \<noteq> [] \<Longrightarrow> P (last xs) \<Longrightarrow> last (filter P xs) = last xs"
  by (induction xs) (auto simp: filter_empty_conv)

lemma last_split_sep_nonempty:
  "s \<noteq> [] \<Longrightarrow> last s \<noteq> c \<Longrightarrow> last (split_sep c s) \<noteq> []"
proof (induction s)
  case Nil
  then show ?case by simp
next
  case (Cons x xs)
  obtain w ws where w: "split_sep c xs = w # ws"
    by (cases "split_sep c xs") simp_all
  show ?case
  proof (cases "xs = []")
    case True
    with Cons.prems show ?thesis by simp
  next
    case False
    with Cons w show ?thesis by (cases ws) (auto split: if_splits)
  qed
qed

text \<open>
  Claim C10. The suffix test compares characters, not entries. When the hook PATH is a
  non-empty text \<open>s\<close> that does not end with the separator, followed by the ambient
  PATH, exactly the ambient PATH is cut off and the segments are those of \<open>s\<close>. The last
  of them is the last piece of \<open>s\<close>, which is only the beginning of an entry of the hook
  PATH: that entry goes on with the first piece of the ambient PATH.
\<close>

theorem suffix_match_not_aligned:
  assumes "s \<noteq> []" and "last s \<noteq> pathsep"
  shows "new_path (s @ ambient) ambient = s
    \<and> path_segments (s @ ambient) ambient = filter (\<lambda>p. p \<noteq> []) (split_sep pathsep s)
    \<and> last (path_segments (s @ ambient) ambient) = last (split_sep pathsep s)
    \<and> last (split_sep pathsep s) \<noteq> []
    \<and> last (split_sep pathsep s) @ hd (split_sep pathsep ambient)
        \<in> set (split_sep pathsep (s @ ambient))"
proof -
  have np: "new_path (s @ ambient) ambient = s"
    by (simp add: new_path_def endswith_def)
  have ne: "last (split_sep pathsep s) \<noteq> []"
    using assms by (rule last_split_sep_nonempty)
  have l: "last (filter (\<lambda>p. p \<noteq> []) (split_sep pathsep s)) = last (split_sep pathsep s)"
    using ne by (simp add: last_filter_keep)
  have m: "last (split_sep pathsep s) @ hd (split_sep pathsep ambient)
        \<in> set (split_sep pathsep (s @ ambient))"
    by (simp add: split_sep_append)
  show ?thesis
    using np ne l m by (simp add: path_segments_def)
qed

theorem suffix_match_not_aligned_witness:
  "''foo'' \<noteq> [] \<and> last ''foo'' \<noteq> pathsep
   \<and> new_path ''fooA:B'' ''A:B'' = ''foo''
   \<and> path_segments ''fooA:B'' ''A:B'' = [''foo'']
   \<and> ''fooA'' \<in> set (split_sep pathsep ''fooA:B'')"
proof -
  have h1: "''foo'' \<noteq> []" by simp
  have h2: "last ''foo'' \<noteq> pathsep" by (simp add: pathsep_def)
  show ?thesis
    using h1 h2 suffix_match_not_aligned [OF h1 h2, of "''A:B''"]
    by (simp add: pathsep_def)
qed

section \<open>Paths of plain names\<close>

lemma split_sep_no_sep: "c \<notin> set s \<Longrightarrow> split_sep c s = [s]"
  by (induction s) auto

lemma Path_plain_name: "plain_name a \<Longrightarrow> Path a = PurePath [] [a]"
  by (cases a) (auto simp: plain_name_def Path_def splitroot_def split_sep_no_sep)

lemma truediv_plain_name:
  "plain_name a \<Longrightarrow> truediv p a = PurePath (root p) (parts p @ [a])"
  by (simp add: truediv_def Path_plain_name)

lemma plain_name_bin: "plain_name ''bin''"
  by (simp add: plain_name_def sep_def)

lemma join_sep_snoc:
  "join_sep c (ws @ [w]) = (if ws = [] then w else join_sep c ws @ c # w)"
  by (induction c ws rule: join_sep.induct) auto

lemma root_Path_cases: "root (Path p) = [] \<or> root (Path p) = [sep] \<or> root (Path p) = [sep, sep]"
proof (cases p)
  case Nil
  then show ?thesis by (simp add: Path_def splitroot_def)
next
  case (Cons a p')
  then show ?thesis
    by (cases p'; cases "a = sep") (auto simp: Path_def splitroot_def)
qed

lemma parts_Path_plain:
  "x \<in> set (parts (Path p)) \<Longrightarrow> x \<noteq> [] \<and> x \<noteq> ''.'' \<and> sep \<notin> set x"
  by (auto simp: Path_def split: prod.splits dest: split_sep_free)

lemma join_sep_eq_Nil: "join_sep c ws = [] \<longleftrightarrow> ws = [] \<or> ws = [[]]"
  by (induction c ws rule: join_sep.induct) auto

lemma path_str_exe_path:
  assumes "plain_name a"
  shows "path_str (exe_path cp a) =
     (if parts (Path cp) = [] then root (Path cp) else path_str (Path cp) @ [sep])
       @ ''bin'' @ [sep] @ a"
proof -
  have e: "exe_path cp a = PurePath (root (Path cp)) (parts (Path cp) @ [''bin'', a])"
    using assms by (simp add: exe_path_def truediv_plain_name plain_name_bin)
  have "join_sep sep (parts (Path cp) @ [''bin'', a]) =
      (if parts (Path cp) = [] then [] else join_sep sep (parts (Path cp)) @ [sep])
        @ ''bin'' @ [sep] @ a"
    using join_sep_snoc [of sep "parts (Path cp) @ [''bin'']" a]
      join_sep_snoc [of sep "parts (Path cp)" "''bin''"]
    by simp
  moreover have "parts (Path cp) \<noteq> [] \<Longrightarrow> join_sep sep (parts (Path cp)) \<noteq> []"
    using parts_Path_plain [of _ cp] by (auto simp: join_sep_eq_Nil)
  ultimately show ?thesis
    using e by (auto simp: path_str_def Let_def)
qed

section \<open>What a run writes\<close>

lemma write_text_contents:
  "write_text s p data = Inr s1 \<Longrightarrow> contents s1 i \<noteq> contents s i \<Longrightarrow>
     contents s1 i = Some data"
  by (auto simp: write_text_def split: if_splits option.splits)

lemma unlink_contents: "unlink_missing_ok s p = Inr s1 \<Longrightarrow> contents s1 = contents s"
  by (auto simp: unlink_missing_ok_def split: if_splits)

lemma link_contents: "link s src dst = Inr s1 \<Longrightarrow> contents s1 = contents s"
  by (auto simp: link_def split: if_splits option.splits)

lemma publish_app_contents:
  assumes "publish_app pixi_home cp pd fenv app s = (s1, r)"
    and "contents s1 i \<noteq> contents s i"
  shows "\<exists>name. app = YStr name \<and>
     contents s1 i = Some (json_dumps (config (path_str (exe_path cp name)) pd fenv))"
proof (cases app)
  case (YStr name)
  let ?txt = "json_dumps (config (path_str (exe_path cp name)) pd fenv)"
  show ?thesis
  proof (cases "write_text s (config_path pixi_home name) ?txt")
    case (Inl err)
    with assms YStr show ?thesis by (simp add: publish_app_def)
  next
    case (Inr w)
    have "contents s1 = contents w"
      using assms(1) YStr Inr
      by (auto simp: publish_app_def split: sum.splits dest!: unlink_contents link_contents)
    with assms(2) Inr YStr show ?thesis
      using write_text_contents [of s "config_path pixi_home name" ?txt w i] by simp
  qed
qed (use assms in \<open>auto simp: publish_app_def\<close>)

lemma publish_apps_contents:
  "publish_apps pixi_home cp pd fenv app_list s = (s1, r) \<Longrightarrow>
   contents s1 i \<noteq> contents s i \<Longrightarrow>
   \<exists>name. YStr name \<in> set app_list \<and>
     contents s1 i = Some (json_dumps (config (path_str (exe_path cp name)) pd fenv))"
proof (induction app_list arbitrary: s)
  case Nil
  then show ?case by simp
next
  case (Cons app rest)
  obtain sa ra where a: "publish_app pixi_home cp pd fenv app s = (sa, ra)"
    by (cases "publish_app pixi_home cp pd fenv app s")
  show ?case
  proof (cases ra)
    case (Some err)
    with Cons.prems a have "s1 = sa" by simp
    with Cons.prems(2) a publish_app_contents [of pixi_home cp pd fenv app s sa ra i]
    show ?thesis by auto
  next
    case None
    with Cons.prems a have rest: "publish_apps pixi_home cp pd fenv rest sa = (s1, r)"
      by simp
    show ?thesis
    proof (cases "contents s1 i = contents sa i")
      case True
      with Cons.prems(2) a publish_app_contents [of pixi_home cp pd fenv app s sa ra i]
      show ?thesis by auto
    next
      case False
      with Cons.IH [OF rest] show ?thesis by auto
    qed
  qed
qed

lemma expose_entry_contents:
  assumes "expose_entry pixi_home env_vars current_path e s = (s1, r)"
    and "contents s1 i \<noteq> contents s i"
  shows "\<exists>name cp. YStr name \<in> set (apps e) \<and> map_of env_vars ''CONDA_PREFIX'' = Some cp \<and>
     contents s1 i = Some (json_dumps (config (path_str (exe_path cp name))
        (path_diff (dict_get env_vars ''PATH'' []) current_path)
        (filtered_env env_vars (exclude_env_vars e))))"
proof (cases "map_of env_vars ''CONDA_PREFIX''")
  case None
  with assms show ?thesis by (simp add: expose_entry_def)
next
  case (Some cp)
  show ?thesis
  proof (cases "cp = []")
    case True
    with assms Some show ?thesis by (simp add: expose_entry_def)
  next
    case False
    with assms Some show ?thesis
      using publish_apps_contents [of pixi_home cp
          "path_diff (dict_get env_vars ''PATH'' []) current_path"
          "filtered_env env_vars (exclude_env_vars e)" "apps e" s s1 r i]
      by (simp add: expose_entry_def)
  qed
qed

lemma example_paths:
  "get_trampoline_bin example_home =
     PurePath ''/'' [''h'', ''.pixi'', ''bin'', ''trampoline_configuration'', ''trampoline_bin'']"
  "config_path example_home ''tool'' =
     PurePath ''/'' [''h'', ''.pixi'', ''bin'', ''trampoline_configuration'', ''tool.json'']"
  "link_path example_home ''tool'' = PurePath ''/'' [''h'', ''.pixi'', ''bin'', ''tool'']"
  "Path ''/h/.pixi/bin'' = PurePath ''/'' [''h'', ''.pixi'', ''bin'']"
  "Path ''/h/.pixi/bin/trampoline_configuration'' =
     PurePath ''/'' [''h'', ''.pixi'', ''bin'', ''trampoline_configuration'']"
  "Path ''/usr/bin'' = PurePath ''/'' [''usr'', ''bin'']"
  "config_path example_home ''/usr/bin/tool'' = PurePath ''/'' [''usr'', ''bin'', ''tool.json'']"
  "link_path example_home ''/usr/bin/tool'' = PurePath ''/'' [''usr'', ''bin'', ''tool'']"
  by (simp_all add: get_trampoline_bin_def config_path_def link_path_def config_dir_def
      bin_dir_def example_home_def truediv_def Path_def splitroot_def sep_def)

lemma example_values:
  "path_diff (dict_get example_env ''PATH'' []) ''/usr/bin'' = ''/e/bin''"
  "filtered_env example_env None = [(''CONDA_PREFIX'', ''/e''), (''FOO'', ''1'')]"
  "map_of example_env ''CONDA_PREFIX'' = Some ''/e''"
  "path_str (exe_path ''/e'' ''tool'') = ''/e/bin/tool''"
  "path_str (exe_path ''/e'' ''/usr/bin/tool'') = ''/usr/bin/tool''"
  by (simp_all add: path_diff_def path_segments_def new_path_def endswith_def dict_get_def
      example_env_def pathsep_def filtered_env_def should_exclude_def EXCLUDE_EXACT_def
      EXCLUDE_PREFIXES_def startswith_def exe_path_def truediv_def Path_def splitroot_def
      sep_def path_str_def)

lemma example_run:
  "expose_entry example_home example_env ''/usr/bin'' (example_entry [''tool'']) example_fs =
     (example_published, None)"
  by (simp add: expose_entry_def example_entry_def example_values publish_app_def
      example_fs_def example_published_def write_text_def unlink_missing_ok_def link_def
      parent_def example_paths)


text \<open>
  Claim C6. Whatever content \<open>expose_entry\<close> has changed in the file system is the JSON
  text of a configuration whose environment is the filtered one; no name in it is
  \<open>PATH\<close>, none starts with \<open>PIXI_\<close>, none is rejected by \<open>_should_exclude\<close> and none is in
  a supplied exclusion list, and every name in it comes from the captured environment.
\<close>

theorem published_environment_invariant:
  assumes "expose_entry pixi_home env_vars current_path e s = (s1, r)"
    and "contents s1 i \<noteq> contents s i"
  shows "\<exists>exe pd fenv. contents s1 i = Some (json_dumps (config exe pd fenv))
     \<and> fenv = filtered_env env_vars (exclude_env_vars e)
     \<and> (\<forall>k v. (k, v) \<in> set fenv \<longrightarrow>
           k \<noteq> ''PATH'' \<and> \<not> prefix ''PIXI_'' k \<and> \<not> should_exclude k (exclude_env_vars e)
           \<and> (\<forall>xs. exclude_env_vars e = Some xs \<longrightarrow> YStr k \<notin> set xs)
           \<and> map_of env_vars k \<noteq> None)"
proof -
  have "\<forall>k v. (k, v) \<in> set (filtered_env env_vars (exclude_env_vars e)) \<longrightarrow>
           k \<noteq> ''PATH'' \<and> \<not> prefix ''PIXI_'' k \<and> \<not> should_exclude k (exclude_env_vars e)
           \<and> (\<forall>xs. exclude_env_vars e = Some xs \<longrightarrow> YStr k \<notin> set xs)
           \<and> map_of env_vars k \<noteq> None"
    using should_exclude_iff [of _ "exclude_env_vars e"]
    by (auto simp: filtered_env_def dest: weak_map_of_SomeI)
  with expose_entry_contents [OF assms] show ?thesis by blast
qed

theorem published_environment_invariant_witness:
  "expose_entry example_home example_env ''/usr/bin'' (example_entry [''tool'']) example_fs =
     (example_published, None)
   \<and> contents example_published 1 \<noteq> contents example_fs 1
   \<and> (\<exists>exe pd. contents example_published 1 =
         Some (json_dumps (config exe pd [(''CONDA_PREFIX'', ''/e''), (''FOO'', ''1'')])))"
proof -
  have c: "contents example_published 1 \<noteq> contents example_fs 1"
    by (simp add: example_published_def example_fs_def)
  show ?thesis
    using example_run c published_environment_invariant [OF example_run c]
    by (auto simp: example_entry_def example_values)
qed

section \<open>Decoding what was encoded\<close>

lemma less_16_cases:
  "(k::nat) < 16 \<Longrightarrow> k \<in> {0, 1, 2, 3, 4, 5, 6, 7, 8, 9, 10, 11, 12, 13, 14, 15}"
  by simp arith

lemma hex_value_hex_digit: "k < 16 \<Longrightarrow> hex_value (hex_digit k) = Some k"
  by (drule less_16_cases) (auto simp: hex_value_def hex_digit_def)

lemma decode_uXXXX_hex:
  "decode_uXXXX CHR ''0'' CHR ''0'' (hex_digit ((of_char c :: nat) div 16))
     (hex_digit (of_char c :: nat)) = Some c"
proof -
  let ?n = "of_char c :: nat"
  have lt: "?n < 256"
    by simp
  have hi: "hex_value (hex_digit (?n div 16)) = Some (?n div 16)"
  proof (rule hex_value_hex_digit)
    show "?n div 16 < 16" using lt by arith
  qed
  have "hex_digit ?n = hex_digit (?n mod 16)"
    by (simp add: hex_digit_def)
  then have lo: "hex_value (hex_digit ?n) = Some (?n mod 16)"
    using hex_value_hex_digit [of "?n mod 16"] by simp
  have z: "hex_value CHR ''0'' = Some 0"
    by (simp add: hex_value_def)
  show ?thesis
    by (simp add: decode_uXXXX_def hi lo z)
qed

lemma scanstring_escape_char:
  "scanstring (escape_char c @ rest) = cons_result c (scanstring rest)"
proof -
  consider (short) "c \<in> {CHR 0x22, CHR 0x5C, CHR 0x0A, CHR 0x0D, CHR 0x09, CHR 0x08, CHR 0x0C}"
    | (plain) "c \<notin> {CHR 0x22, CHR 0x5C, CHR 0x0A, CHR 0x0D, CHR 0x09, CHR 0x08, CHR 0x0C}"
        "0x20 \<le> (of_char c :: nat)" "(of_char c :: nat) \<le> 0x7E"
    | (hex) "c \<notin> {CHR 0x22, CHR 0x5C, CHR 0x0A, CHR 0x0D, CHR 0x09, CHR 0x08, CHR 0x0C}"
        "\<not> (0x20 \<le> (of_char c :: nat) \<and> (of_char c :: nat) \<le> 0x7E)"
    by blast
  then show ?thesis
  proof cases
    case short
    then show ?thesis
      by (auto simp: escape_char_def unescape_def)
  next
    case plain
    then show ?thesis
      by (simp add: escape_char_def)
  next
    case hex
    then show ?thesis
      by (simp add: escape_char_def decode_uXXXX_hex)
  qed
qed

lemma scanstring_escaped:
  "scanstring (concat (map escape_char v) @ CHR 0x22 # rest) = Some (v, rest)"
  by (induction v) (simp_all add: scanstring_escape_char cons_result_def)

lemma scanstring_encode_str:
  "encode_str v @ rest = CHR 0x22 # concat (map escape_char v) @ CHR 0x22 # rest"
  by (simp add: encode_str_def)

lemma skip_ws_append:
  "list_all is_ws w \<Longrightarrow> \<not> is_ws x \<Longrightarrow> skip_ws (w @ x # s) = x # s"
  by (induction w) (simp_all add: skip_ws_def)

lemma skip_ws_nonws: "\<not> is_ws x \<Longrightarrow> skip_ws (x # s) = x # s"
  by (simp add: skip_ws_def)

lemma ws_newline_indent: "list_all is_ws (newline_indent level)"
  by (simp add: newline_indent_def is_ws_def list_all_iff)

lemma dict_update_fresh: "k \<notin> fst ` set d \<Longrightarrow> dict_update d k v = d @ [(k, v)]"
  by (induction d) auto

lemma fold_dict_update:
  "distinct (map fst d @ map fst pairs) \<Longrightarrow>
     fold (\<lambda>(k, v) d. dict_update d k v) pairs d = d @ pairs"
proof (induction pairs arbitrary: d)
  case Nil
  then show ?case by simp
next
  case (Cons p pairs)
  obtain k v where p: "p = (k, v)" by (cases p)
  have "dict_update d k v = d @ [(k, v)]"
    using Cons.prems p by (intro dict_update_fresh) auto
  moreover have "distinct (map fst (d @ [(k, v)]) @ map fst pairs)"
    using Cons.prems p by auto
  ultimately show ?case
    using Cons.IH [of "d @ [(k, v)]"] p by simp
qed

lemma dict_of_pairs_distinct: "distinct (map fst pairs) \<Longrightarrow> dict_of_pairs pairs = pairs"
  using fold_dict_update [of "[]" pairs] by (simp add: dict_of_pairs_def)

lemma encode_str_Cons: "encode_str v = CHR 0x22 # concat (map escape_char v) @ [CHR 0x22]"
  by (simp add: encode_str_def)

lemma encode_json_start:
  "\<exists>x s. encode_json level v = x # s \<and> \<not> is_ws x \<and> (x = CHR 0x22 \<or> x = CHR ''{'')"
proof (cases v)
  case (JStr x1)
  then show ?thesis by (simp add: encode_str_def is_ws_def)
next
  case (JObj items)
  then show ?thesis by (cases items) (simp_all add: is_ws_def)
qed

lemma encode_items_start:
  "items \<noteq> [] \<Longrightarrow> \<exists>s. encode_items level items = CHR 0x22 # s"
proof -
  assume "items \<noteq> []"
  then obtain k v r where "items = (k, v) # r"
    by (cases items) auto
  then show ?thesis
    by (cases r) (simp_all add: encode_str_def)
qed

lemma scan_once_string:
  "scan_once (Suc n) (encode_str v @ rest) = Some (JStr v, rest)"
  by (simp add: encode_str_def scanstring_escaped)

lemma scan_members_key:
  assumes "\<not> is_ws x"
  shows "scan_members (Suc n) (encode_str k @ '': '' @ x # s) =
     (case scan_once n (x # s) of
        None \<Rightarrow> None
      | Some (v, s3) \<Rightarrow>
          (case skip_ws s3 of
             [] \<Rightarrow> None
           | d # s4 \<Rightarrow>
               if d = CHR ''}'' then Some ([(k, v)], s4)
               else if d = CHR '','' then cons_result (k, v) (scan_members n (skip_ws s4))
               else None))"
proof -
  have a: "skip_ws ('': '' @ x # s) = CHR '':'' # CHR '' '' # x # s"
    by (simp add: skip_ws_def is_ws_def)
  have b: "skip_ws (CHR '' '' # x # s) = x # s"
    using assms by (simp add: skip_ws_def is_ws_def)
  show ?thesis
    using a b by (simp add: encode_str_def scanstring_escaped)
qed

lemma scan_encode:
  "(\<forall>n rest. json_size v \<le> n \<longrightarrow> dict_json v \<longrightarrow>
      scan_once n (encode_json level v @ rest) = Some (v, rest))"
  "(items \<noteq> [] \<longrightarrow>
    (\<forall>n w rest. items_size items \<le> n \<longrightarrow> dict_items items \<longrightarrow> list_all is_ws w \<longrightarrow>
      scan_members n (encode_items level items @ w @ CHR ''}'' # rest) = Some (items, rest)))"
proof (induction level v and level items rule: encode_json_encode_items.induct)
  case (1 level v)
  show ?case
  proof (intro allI impI)
    fix n rest
    assume "json_size (JStr v) \<le> n"
    then obtain m where "n = Suc m"
      by (cases n) auto
    then show "scan_once n (encode_json level (JStr v) @ rest) = Some (JStr v, rest)"
      by (simp add: scan_once_string)
  qed
next
  case (2 level)
  show ?case
  proof (intro allI impI)
    fix n rest
    assume "json_size (JObj []) \<le> n"
    then obtain m where "n = Suc m"
      by (cases n) auto
    then show "scan_once n (encode_json level (JObj []) @ rest) = Some (JObj [], rest)"
      by (simp add: skip_ws_def is_ws_def)
  qed
next
  case (3 level i items)
  show ?case
  proof (intro allI impI)
    fix n rest
    assume size: "json_size (JObj (i # items)) \<le> n" and ok: "dict_json (JObj (i # items))"
    then obtain m where n: "n = Suc m" and m: "items_size (i # items) \<le> m"
      by (cases n) auto
    obtain body where body: "encode_items (Suc level) (i # items) = CHR 0x22 # body"
      using encode_items_start [of "i # items" "Suc level"] by auto
    have skip: "skip_ws (newline_indent (Suc level) @ CHR 0x22 # body
          @ newline_indent level @ CHR ''}'' # rest)
        = CHR 0x22 # body @ newline_indent level @ CHR ''}'' # rest"
      by (rule skip_ws_append [OF ws_newline_indent]) (simp add: is_ws_def)
    have mem: "scan_members m (encode_items (Suc level) (i # items)
          @ newline_indent level @ CHR ''}'' # rest) = Some (i # items, rest)"
      using 3 m ok ws_newline_indent [of level] by simp
    have d: "dict_of_pairs (i # items) = i # items"
      using ok by (intro dict_of_pairs_distinct) simp
    show "scan_once n (encode_json level (JObj (i # items)) @ rest) = Some (JObj (i # items), rest)"
      using mem by (simp add: n body skip d)
  qed
next
  case (4 level)
  show ?case by simp
next
  case (5 level k v)
  show ?case
  proof (intro allI impI)
    fix n w rest
    assume size: "items_size [(k, v)] \<le> n" and ok: "dict_items [(k, v)]"
      and ws: "list_all is_ws w"
    then obtain m where n: "n = Suc m" and m: "json_size v \<le> m"
      by (cases n) auto
    obtain x s where start: "encode_json level v = x # s" "\<not> is_ws x"
      using encode_json_start [of level v] by auto
    have val: "scan_once m (x # s @ w @ CHR ''}'' # rest) = Some (v, w @ CHR ''}'' # rest)"
      using 5 m ok start(1) by (metis append_Cons dict_items.simps(2))
    have skip: "skip_ws (w @ CHR ''}'' # rest) = CHR ''}'' # rest"
      using ws by (rule skip_ws_append) (simp add: is_ws_def)
    have "scan_members (Suc m) (encode_str k @ '': '' @ x # (s @ w @ CHR ''}'' # rest))
        = Some ([(k, v)], rest)"
      unfolding scan_members_key [OF start(2)] val by (simp add: skip)
    then show "scan_members n (encode_items level [(k, v)] @ w @ CHR ''}'' # rest)
        = Some ([(k, v)], rest)"
      by (simp add: n start(1))
  qed
next
  case (6 level k v i items)
  show ?case
  proof (intro allI impI)
    fix n w rest
    assume size: "items_size ((k, v) # i # items) \<le> n" and ok: "dict_items ((k, v) # i # items)"
      and ws: "list_all is_ws w"
    then obtain m where n: "n = Suc m" and m: "json_size v \<le> m" "items_size (i # items) \<le> m"
      by (cases n) auto
    obtain x s where start: "encode_json level v = x # s" "\<not> is_ws x"
      using encode_json_start [of level v] by auto
    obtain body where body: "encode_items level (i # items) = CHR 0x22 # body"
      using encode_items_start [of "i # items" level] by auto
    let ?tail = "'','' @ newline_indent level @ encode_items level (i # items)
        @ w @ CHR ''}'' # rest"
    have val: "scan_once m (x # s @ ?tail) = Some (v, ?tail)"
      using 6(1) m(1) ok start(1) by (metis append_Cons dict_items.simps(2))
    have skip1: "skip_ws ?tail = CHR '','' # newline_indent level
        @ encode_items level (i # items) @ w @ CHR ''}'' # rest"
      by (simp add: skip_ws_def is_ws_def)
    have skip2: "skip_ws (newline_indent level @ encode_items level (i # items)
          @ w @ CHR ''}'' # rest)
        = encode_items level (i # items) @ w @ CHR ''}'' # rest"
      unfolding body using skip_ws_append [OF ws_newline_indent, of "CHR 0x22" level]
      by (simp add: is_ws_def)
    have mem: "scan_members m (encode_items level (i # items) @ w @ CHR ''}'' # rest)
        = Some (i # items, rest)"
      using 6(2) m(2) ok ws by simp
    have "scan_members (Suc m) (encode_str k @ '': '' @ x # (s @ ?tail))
        = Some ((k, v) # i # items, rest)"
      unfolding scan_members_key [OF start(2)] val
      by (simp add: skip1 skip2 mem cons_result_def del: append_Cons append_Nil)
    then show "scan_members n (encode_items level ((k, v) # i # items) @ w @ CHR ''}'' # rest)
        = Some ((k, v) # i # items, rest)"
      by (simp add: n start(1))
  qed
qed

lemma json_size_le_length:
  "json_size v \<le> length (encode_json level v)"
  "items_size items \<le> length (encode_items level items)"
  by (induction level v and level items rule: encode_json_encode_items.induct)
     (simp_all add: encode_str_def)

lemma json_loads_dumps: "dict_json v \<Longrightarrow> json_loads (json_dumps v) = Some v"
proof -
  assume ok: "dict_json v"
  obtain x s where start: "encode_json 0 v = x # s" "\<not> is_ws x"
    using encode_json_start [of 0 v] by auto
  have skip: "skip_ws (encode_json 0 v) = encode_json 0 v"
    using start by (simp add: skip_ws_nonws)
  have "scan_once (length (encode_json 0 v)) (encode_json 0 v @ []) = Some (v, [])"
    using scan_encode(1) [of v 0] json_size_le_length(1) [of v 0] ok by blast
  then show ?thesis
    by (simp add: json_loads_def json_dumps_def skip) (simp add: skip_ws_def)
qed

lemma dict_items_strings: "dict_items (map (\<lambda>(k, v). (k, JStr v)) fenv)"
  by (induction fenv) auto

lemma dict_json_config: "distinct (map fst fenv) \<Longrightarrow> dict_json (config exe pd fenv)"
proof -
  assume d: "distinct (map fst fenv)"
  have "map fst (map (\<lambda>(k, v). (k, JStr v)) fenv) = map fst fenv"
    by (induction fenv) auto
  with d have "distinct (map fst (map (\<lambda>(k, v). (k, JStr v)) fenv))"
    by (simp only:)
  then show ?thesis
    using dict_items_strings [of fenv] by (simp add: config_def del: map_map)
qed

lemma split_join_segments:
  "list_all (\<lambda>w. w \<noteq> [] \<and> c \<notin> set w) ws \<Longrightarrow>
     filter (\<lambda>p. p \<noteq> []) (split_sep c (join_sep c ws)) = ws"
proof (induction c ws rule: join_sep.induct)
  case (1 c)
  show ?case by simp
next
  case (2 c w)
  then show ?case by (simp add: split_sep_no_sep)
next
  case (3 c w v ws)
  have "split_sep c (w @ c # join_sep c (v # ws)) = w # split_sep c (join_sep c (v # ws))"
    using 3(2) by (simp add: split_sep_append split_sep_no_sep)
  with 3 show ?case by simp
qed

lemma path_segments_of_path_diff:
  "filter (\<lambda>p. p \<noteq> []) (split_sep pathsep (path_diff hook_path current_path)) =
     path_segments hook_path current_path"
  unfolding path_diff_def
  by (rule split_join_segments) (auto simp: path_segments_def list_all_iff dest: split_sep_free)

section \<open>The configuration file of a published name\<close>

lemma splitroot_append_json:
  "splitroot (name @ ''.json'') = (fst (splitroot name), snd (splitroot name) @ ''.json'')"
proof (cases name)
  case Nil
  then show ?thesis by (simp add: splitroot_def sep_def)
next
  case a: (Cons a name1)
  show ?thesis
  proof (cases name1)
    case Nil
    with a show ?thesis by (simp add: splitroot_def sep_def)
  next
    case b: (Cons b name2)
    show ?thesis
    proof (cases name2)
      case Nil
      with a b show ?thesis by (simp add: splitroot_def sep_def)
    next
      case (Cons c name3)
      with a b show ?thesis by (simp add: splitroot_def sep_def)
    qed
  qed
qed

lemma Path_append_json:
  "\<exists>t'. Path (name @ ''.json'') = PurePath (root (Path name)) t'
     \<and> length (parts (Path name)) \<le> length t' \<and> t' \<noteq> parts (Path name)"
proof -
  obtain r rel where sr: "splitroot name = (r, rel)"
    by (cases "splitroot name")
  let ?ok = "\<lambda>x. x \<noteq> [] \<and> x \<noteq> ''.''"
  let ?S = "split_sep sep rel"
  have S: "?S = butlast ?S @ [last ?S]"
    by simp
  have j: "split_sep sep ''.json'' = [''.json'']"
    by (simp add: sep_def)
  have "split_sep sep (rel @ ''.json'') =
      butlast ?S @ (last ?S @ hd (split_sep sep ''.json'')) # tl (split_sep sep ''.json'')"
    by (rule split_sep_append)
  then have "split_sep sep (rel @ ''.json'') = butlast ?S @ [last ?S @ ''.json'']"
    by (simp only: j list.sel)
  then have p: "Path (name @ ''.json'') =
      PurePath r (filter ?ok (butlast ?S) @ [last ?S @ ''.json''])"
    by (simp add: Path_def splitroot_append_json sr)
  have "filter ?ok ?S = filter ?ok (butlast ?S) @ filter ?ok [last ?S]"
    by (metis S filter_append)
  then have q: "parts (Path name) = filter ?ok (butlast ?S) @ (if ?ok (last ?S) then [last ?S] else [])"
    by (simp add: Path_def sr)
  have r: "root (Path name) = r"
    by (simp add: Path_def sr)
  show ?thesis
    unfolding p q r by auto
qed

lemma bin_dir_eq: "bin_dir h = PurePath (root h) (parts h @ [''bin''])"
  by (simp add: bin_dir_def truediv_plain_name plain_name_bin)

lemma config_dir_eq:
  "config_dir h = PurePath (root h) (parts h @ [''bin'', ''trampoline_configuration''])"
  by (simp add: config_dir_def bin_dir_eq truediv_plain_name plain_name_def sep_def)

lemma get_trampoline_bin_eq:
  "get_trampoline_bin h =
     PurePath (root h) (parts h @ [''bin'', ''trampoline_configuration'', ''trampoline_bin''])"
  by (simp add: get_trampoline_bin_def truediv_plain_name plain_name_def sep_def)

lemma config_path_neq_link_path: "config_path h name \<noteq> link_path h name"
proof -
  obtain t' where t: "Path (name @ ''.json'') = PurePath (root (Path name)) t'"
      "length (parts (Path name)) \<le> length t'" "t' \<noteq> parts (Path name)"
    using Path_append_json [of name] by auto
  obtain r t0 where n: "Path name = PurePath r t0"
    by (cases "Path name")
  show ?thesis
  proof (cases "r = []")
    case True
    have "length (parts (config_path h name)) = length (parts h) + 2 + length t'"
      using t n True by (simp add: config_path_def config_dir_eq truediv_def)
    moreover have "length (parts (link_path h name)) = length (parts h) + 1 + length t0"
      using n True by (simp add: link_path_def bin_dir_eq truediv_def)
    ultimately have "length (parts (config_path h name)) \<noteq> length (parts (link_path h name))"
      using t(2) n by simp
    then show ?thesis
      by auto
  next
    case False
    then show ?thesis
      using t n by (simp add: config_path_def link_path_def truediv_def)
  qed
qed

lemma write_text_stored:
  "write_text s p data = Inr w \<Longrightarrow>
     p \<notin> dirs w \<and> (\<exists>i. names w p = Some i \<and> contents w i = Some data)"
  by (auto simp: write_text_def split: if_splits option.splits)

lemma unlink_other:
  "unlink_missing_ok s p = Inr u \<Longrightarrow>
     dirs u = dirs s \<and> contents u = contents s \<and> (\<forall>q. q \<noteq> p \<longrightarrow> names u q = names s q)"
  by (auto simp: unlink_missing_ok_def split: if_splits)

lemma link_other:
  "link s src dst = Inr u \<Longrightarrow>
     dirs u = dirs s \<and> contents u = contents s \<and> (\<forall>q. q \<noteq> dst \<longrightarrow> names u q = names s q)"
  by (auto simp: link_def split: if_splits option.splits)

lemma publish_app_config_file:
  assumes "publish_app pixi_home cp pd fenv (YStr name) s = (s1, None)"
  shows "read_text s1 (config_path pixi_home name) =
     Inr (json_dumps (config (path_str (exe_path cp name)) pd fenv))"
proof -
  let ?txt = "json_dumps (config (path_str (exe_path cp name)) pd fenv)"
  let ?c = "config_path pixi_home name"
  let ?l = "link_path pixi_home name"
  from assms obtain w u where
    w: "write_text s ?c ?txt = Inr w" and
    u: "unlink_missing_ok w ?l = Inr u" and
    l: "link u (get_trampoline_bin pixi_home) ?l = Inr s1"
    by (auto simp: publish_app_def split: sum.splits)
  have ne: "?c \<noteq> ?l"
    by (rule config_path_neq_link_path)
  from write_text_stored [OF w] obtain i where
    i: "?c \<notin> dirs w" "names w ?c = Some i" "contents w i = Some ?txt"
    by auto
  have "dirs s1 = dirs w" "contents s1 = contents w" "names s1 ?c = names w ?c"
    using unlink_other [OF u] link_other [OF l] ne by simp_all
  with i show ?thesis
    by (simp add: read_text_def)
qed

lemma config_inject:
  "config exe1 pd1 fenv1 = config exe pd fenv \<longleftrightarrow> exe1 = exe \<and> pd1 = pd \<and> fenv1 = fenv"
proof -
  have "inj (\<lambda>(k, v). (k, JStr v))"
    by (auto simp: inj_on_def)
  then have "map (\<lambda>(k, v). (k, JStr v)) fenv1 = map (\<lambda>(k, v). (k, JStr v)) fenv \<longleftrightarrow> fenv1 = fenv"
    by (rule inj_map_eq_map)
  then show ?thesis
    by (auto simp: config_def)
qed

lemma distinct_filtered_env:
  "distinct (map fst env_vars) \<Longrightarrow> distinct (map fst (filtered_env env_vars extra))"
  by (simp add: filtered_env_def distinct_map_filter)

text \<open>
  Claim C7. Take an environment that is a dictionary (no name twice). After an
  executable is published, the configuration file of its name can be read, and
  decoding its text gives back the configuration it was made of: whatever executable
  path, \<open>path_diff\<close> and environment the decoded value consists of, they are the
  executable path, the joined PATH difference (whose non-empty pieces are the segments,
  in order) and the filtered environment of the run.
\<close>

theorem config_round_trip:
  assumes "distinct (map fst env_vars)"
    and "publish_app pixi_home conda_prefix (path_diff hook_path current_path)
           (filtered_env env_vars extra) (YStr name) s = (s1, None)"
  shows "\<exists>txt. read_text s1 (config_path pixi_home name) = Inr txt
     \<and> json_loads txt =
         Some (config (path_str (exe_path conda_prefix name))
                 (path_diff hook_path current_path) (filtered_env env_vars extra))
     \<and> (\<forall>exe pd fenv. json_loads txt = Some (config exe pd fenv) \<longrightarrow>
           exe = path_str (exe_path conda_prefix name)
           \<and> pd = path_diff hook_path current_path
           \<and> filter (\<lambda>p. p \<noteq> []) (split_sep pathsep pd) = path_segments hook_path current_path
           \<and> fenv = filtered_env env_vars extra)"
proof -
  let ?cfg = "config (path_str (exe_path conda_prefix name))
                 (path_diff hook_path current_path) (filtered_env env_vars extra)"
  have r: "read_text s1 (config_path pixi_home name) = Inr (json_dumps ?cfg)"
    using assms(2) by (rule publish_app_config_file)
  have l: "json_loads (json_dumps ?cfg) = Some ?cfg"
    using assms(1) by (intro json_loads_dumps dict_json_config distinct_filtered_env)
  show ?thesis
    using r l by (auto simp: config_inject path_segments_of_path_diff)
qed

theorem config_round_trip_witness:
  "distinct (map fst example_env)
   \<and> publish_app example_home ''/e'' (path_diff ''/e/bin:/usr/bin'' ''/usr/bin'')
       (filtered_env example_env None) (YStr ''tool'') example_fs = (example_published, None)
   \<and> (\<exists>txt. read_text example_published (config_path example_home ''tool'') = Inr txt
        \<and> json_loads txt =
            Some (config ''/e/bin/tool'' ''/e/bin'' [(''CONDA_PREFIX'', ''/e''), (''FOO'', ''1'')]))"
proof -
  have d: "distinct (map fst example_env)"
    by (simp add: example_env_def)
  have v: "path_diff ''/e/bin:/usr/bin'' ''/usr/bin'' = ''/e/bin''"
    using example_values(1) by (simp add: dict_get_def example_env_def)
  have p: "publish_app example_home ''/e'' (path_diff ''/e/bin:/usr/bin'' ''/usr/bin'')
       (filtered_env example_env None) (YStr ''tool'') example_fs = (example_published, None)"
    using example_run
    by (simp add: expose_entry_def example_entry_def example_values v split: prod.splits option.splits)
  show ?thesis
    using d p config_round_trip [OF d p] by (auto simp: example_values v)
qed

section \<open>Validation of the input\<close>

text \<open>
  Claim C4, as amended. \<open>parse_input\<close> raises a \<open>ValueError\<close> that names \<open>git\<close> when
  \<open>INPUT_GIT\<close> is absent or empty, and one that names \<open>apps\<close> when \<open>INPUT_APPS\<close> is absent
  or empty, or when its YAML value is not a list; an error of the YAML loader is passed
  on. In every other case it returns the entry with the repository, the list as
  loaded (an empty list too), and the revision and the environment name when they are
  not empty. The exclusion list is stored when \<open>INPUT_EXCLUDE_ENV_VARS\<close> is not empty
  and loads as a list; when it loads as something else it is dropped and parsing
  succeeds. The claim as written fails on these last two points.
\<close>

theorem parse_input_validation:
  "(environ_get environ ''INPUT_GIT'' [] = [] \<longrightarrow>
      parse_input safe_load environ =
        Inl (ValueError (CHR 0x27 # ''git'' @ CHR 0x27 # '' input is required'')))
   \<and> (environ_get environ ''INPUT_GIT'' [] \<noteq> [] \<and> environ_get environ ''INPUT_APPS'' [] = [] \<longrightarrow>
      parse_input safe_load environ =
        Inl (ValueError (CHR 0x27 # ''apps'' @ CHR 0x27 # '' input is required'')))
   \<and> (environ_get environ ''INPUT_GIT'' [] \<noteq> [] \<and> environ_get environ ''INPUT_APPS'' [] \<noteq> [] \<longrightarrow>
      (\<forall>err. safe_load (environ_get environ ''INPUT_APPS'' []) = Inl err \<longrightarrow>
         parse_input safe_load environ = Inl err)
      \<and> (\<forall>v. safe_load (environ_get environ ''INPUT_APPS'' []) = Inr v \<and> (\<forall>l. v \<noteq> YSeq l) \<longrightarrow>
         parse_input safe_load environ =
           Inl (ValueError (CHR 0x27 # ''apps'' @ CHR 0x27 # '' input must be a YAML list'')))
      \<and> (\<forall>l. safe_load (environ_get environ ''INPUT_APPS'' []) = Inr (YSeq l) \<longrightarrow>
           (environ_get environ ''INPUT_EXCLUDE_ENV_VARS'' [] = [] \<longrightarrow>
              parse_input safe_load environ =
                Inr \<lparr>git = environ_get environ ''INPUT_GIT'' [], apps = l,
                     ref = nonempty_opt (environ_get environ ''INPUT_REF'' []),
                     environment = nonempty_opt (environ_get environ ''INPUT_ENVIRONMENT'' []),
                     exclude_env_vars = None\<rparr>)
           \<and> (environ_get environ ''INPUT_EXCLUDE_ENV_VARS'' [] \<noteq> [] \<longrightarrow>
                (\<forall>err. safe_load (environ_get environ ''INPUT_EXCLUDE_ENV_VARS'' []) = Inl err \<longrightarrow>
                   parse_input safe_load environ = Inl err)
                \<and> (\<forall>xs. safe_load (environ_get environ ''INPUT_EXCLUDE_ENV_VARS'' []) = Inr (YSeq xs) \<longrightarrow>
                   parse_input safe_load environ =
                     Inr \<lparr>git = environ_get environ ''INPUT_GIT'' [], apps = l,
                          ref = nonempty_opt (environ_get environ ''INPUT_REF'' []),
                          environment = nonempty_opt (environ_get environ ''INPUT_ENVIRONMENT'' []),
                          exclude_env_vars = Some xs\<rparr>)
                \<and> (\<forall>v. safe_load (environ_get environ ''INPUT_EXCLUDE_ENV_VARS'' []) = Inr v
                       \<and> (\<forall>xs. v \<noteq> YSeq xs) \<longrightarrow>
                   parse_input safe_load environ =
                     Inr \<lparr>git = environ_get environ ''INPUT_GIT'' [], apps = l,
                          ref = nonempty_opt (environ_get environ ''INPUT_REF'' []),
                          environment = nonempty_opt (environ_get environ ''INPUT_ENVIRONMENT'' []),
                          exclude_env_vars = None\<rparr>))))"
proof -
  have a: "\<And>v. (\<forall>l. v \<noteq> YSeq l) \<Longrightarrow>
      (case v of YSeq l \<Rightarrow> f l | _ \<Rightarrow> d) = d" for f :: "yaml list \<Rightarrow> error + entry" and d
    by (simp split: yaml.splits)
  show ?thesis
    by (auto simp: parse_input_def quoted_def Let_def a)
qed

theorem parse_input_validation_witness:
  "parse_input example_safe_load Map.empty =
      Inl (ValueError (CHR 0x27 # ''git'' @ CHR 0x27 # '' input is required''))
   \<and> parse_input example_safe_load
        [''INPUT_GIT'' \<mapsto> ''https://example.org/r.git'', ''INPUT_APPS'' \<mapsto> ''HOME''] =
      Inl (ValueError (CHR 0x27 # ''apps'' @ CHR 0x27 # '' input must be a YAML list''))
   \<and> parse_input example_safe_load
        [''INPUT_GIT'' \<mapsto> ''https://example.org/r.git'', ''INPUT_APPS'' \<mapsto> ''[tool]'',
         ''INPUT_ENVIRONMENT'' \<mapsto> ''dev''] =
      Inr \<lparr>git = ''https://example.org/r.git'', apps = [YStr ''tool''], ref = None,
           environment = Some ''dev'', exclude_env_vars = None\<rparr>"
  using parse_input_validation [of Map.empty example_safe_load]
    parse_input_validation [of "[''INPUT_GIT'' \<mapsto> ''https://example.org/r.git'',
        ''INPUT_APPS'' \<mapsto> ''HOME'']" example_safe_load]
    parse_input_validation [of "[''INPUT_GIT'' \<mapsto> ''https://example.org/r.git'',
        ''INPUT_APPS'' \<mapsto> ''[tool]'', ''INPUT_ENVIRONMENT'' \<mapsto> ''dev'']" example_safe_load]
  by (simp add: environ_get_def example_safe_load_def nonempty_opt_def)

theorem parse_input_validation_counterexample:
  "parse_input example_safe_load
      [''INPUT_GIT'' \<mapsto> ''https://example.org/r.git'', ''INPUT_APPS'' \<mapsto> ''[]''] =
     Inr \<lparr>git = ''https://example.org/r.git'', apps = [], ref = None,
          environment = None, exclude_env_vars = None\<rparr>
   \<and> parse_input example_safe_load
      [''INPUT_GIT'' \<mapsto> ''https://example.org/r.git'', ''INPUT_APPS'' \<mapsto> ''[tool]'',
       ''INPUT_EXCLUDE_ENV_VARS'' \<mapsto> ''HOME''] =
     Inr \<lparr>git = ''https://example.org/r.git'', apps = [YStr ''tool''], ref = None,
          environment = None, exclude_env_vars = None\<rparr>"
  by (simp add: parse_input_def environ_get_def example_safe_load_def nonempty_opt_def)

section \<open>Publishing twice\<close>

lemma plain_name_json: "plain_name n \<Longrightarrow> plain_name (n @ ''.json'')"
  by (auto simp: plain_name_def sep_def)

lemma config_path_plain:
  "plain_name n \<Longrightarrow> config_path h n =
     PurePath (root h) (parts h @ [''bin'', ''trampoline_configuration'', n @ ''.json''])"
  by (simp add: config_path_def config_dir_eq truediv_plain_name plain_name_json)

lemma link_path_plain:
  "plain_name n \<Longrightarrow> link_path h n = PurePath (root h) (parts h @ [''bin'', n])"
  by (simp add: link_path_def bin_dir_eq truediv_plain_name)

lemma link_path_neq_config_path:
  "plain_name n \<Longrightarrow> plain_name m \<Longrightarrow> link_path h n \<noteq> config_path h m"
  by (simp add: link_path_plain config_path_plain)

lemma link_path_neq_trampoline: "plain_name n \<Longrightarrow> link_path h n \<noteq> get_trampoline_bin h"
  by (simp add: link_path_plain get_trampoline_bin_eq)

lemma config_path_neq_trampoline: "plain_name n \<Longrightarrow> config_path h n \<noteq> get_trampoline_bin h"
proof -
  have "n @ ''.json'' \<noteq> ''trampoline_bin''"
  proof
    assume "n @ ''.json'' = ''trampoline_bin''"
    then have "rev (n @ ''.json'') = rev ''trampoline_bin''"
      by (rule arg_cong)
    then show False
      by simp
  qed
  then show "plain_name n \<Longrightarrow> config_path h n \<noteq> get_trampoline_bin h"
    by (simp add: config_path_plain get_trampoline_bin_eq)
qed

lemma publish_app_step:
  assumes "publish_app h cp pd fenv (YStr n) s = (s1, None)"
  shows "dirs s1 = dirs s"
    and "config_path h n \<notin> dirs s"
    and "link_path h n \<notin> dirs s"
    and "parent (link_path h n) \<in> dirs s"
    and "\<And>q j. q \<noteq> link_path h n \<Longrightarrow> names s q = Some j \<Longrightarrow> names s1 q = Some j"
    and "\<And>q. q \<noteq> link_path h n \<Longrightarrow> q \<noteq> config_path h n \<Longrightarrow> names s1 q = names s q"
    and "\<exists>t. names s1 (link_path h n) = Some t
           \<and> (get_trampoline_bin h \<noteq> link_path h n \<longrightarrow> names s1 (get_trampoline_bin h) = Some t)"
    and "\<exists>i. names s1 (config_path h n) = Some i
           \<and> contents s1 = (contents s)(i \<mapsto> config_text cp pd fenv n)"
proof -
  let ?c = "config_path h n" and ?l = "link_path h n" and ?t = "get_trampoline_bin h"
  from assms obtain w u where
    w: "write_text s ?c (config_text cp pd fenv n) = Inr w" and
    u: "unlink_missing_ok w ?l = Inr u" and
    l: "link u ?t ?l = Inr s1"
    by (auto simp: publish_app_def config_text_def split: sum.splits)
  have ne: "?c \<noteq> ?l"
    by (rule config_path_neq_link_path)
  have wd: "dirs w = dirs s" "?c \<notin> dirs s"
    using w by (auto simp: write_text_def split: if_splits option.splits)
  have wn: "\<And>q j. names s q = Some j \<Longrightarrow> names w q = Some j"
    "\<And>q. q \<noteq> ?c \<Longrightarrow> names w q = names s q"
    using w by (auto simp: write_text_def split: if_splits option.splits)
  have wc: "\<exists>i. names w ?c = Some i \<and> contents w = (contents s)(i \<mapsto> config_text cp pd fenv n)"
    using w by (auto simp: write_text_def split: if_splits option.splits)
  have ud: "dirs u = dirs w" "?l \<notin> dirs w" "contents u = contents w"
    "names u = (names w)(?l := None)"
    using u by (auto simp: unlink_missing_ok_def split: if_splits)
  obtain t where lt: "names u ?t = Some t" "parent ?l \<in> dirs u" "dirs s1 = dirs u"
    "contents s1 = contents u" "names s1 = (names u)(?l \<mapsto> t)"
    using l by (auto simp: link_def split: if_splits option.splits)
  show "dirs s1 = dirs s" "config_path h n \<notin> dirs s" "link_path h n \<notin> dirs s"
    "parent (link_path h n) \<in> dirs s"
    using wd ud lt by simp_all
  show "\<And>q j. q \<noteq> link_path h n \<Longrightarrow> names s q = Some j \<Longrightarrow> names s1 q = Some j"
    using wn(1) ud(4) lt(5) by simp
  show "\<And>q. q \<noteq> link_path h n \<Longrightarrow> q \<noteq> config_path h n \<Longrightarrow> names s1 q = names s q"
    using wn(2) ud(4) lt(5) by simp
  show "\<exists>t. names s1 ?l = Some t \<and> (?t \<noteq> ?l \<longrightarrow> names s1 ?t = Some t)"
    using lt(1,5) by auto
  show "\<exists>i. names s1 ?c = Some i \<and> contents s1 = (contents s)(i \<mapsto> config_text cp pd fenv n)"
    using wc ud(3,4) lt(4,5) ne by auto
qed

lemma publish_apps_strings:
  "publish_apps h cp pd fenv as s = (s1, None) \<Longrightarrow> \<exists>ns. as = map YStr ns"
proof (induction as arbitrary: s)
  case Nil
  then show ?case by simp
next
  case (Cons a as)
  obtain sa ra where a: "publish_app h cp pd fenv a s = (sa, ra)"
    by (cases "publish_app h cp pd fenv a s")
  with Cons.prems have ra: "ra = None" and rest: "publish_apps h cp pd fenv as sa = (s1, None)"
    by (auto split: option.splits)
  from a ra obtain n where "a = YStr n"
    by (cases a) (auto simp: publish_app_def)
  moreover from Cons.IH [OF rest] obtain ns where "as = map YStr ns" ..
  ultimately have "a # as = map YStr (n # ns)"
    by simp
  then show ?case ..
qed

lemma publish_apps_ConsD:
  "publish_apps h cp pd fenv (map YStr (n # ns)) s = (s1, None) \<Longrightarrow>
     \<exists>sa. publish_app h cp pd fenv (YStr n) s = (sa, None)
        \<and> publish_apps h cp pd fenv (map YStr ns) sa = (s1, None)"
  by (cases "publish_app h cp pd fenv (YStr n) s") (auto split: option.splits)

lemma publish_apps_dirs:
  "publish_apps h cp pd fenv (map YStr ns) s = (s1, None) \<Longrightarrow> dirs s1 = dirs s"
proof (induction ns arbitrary: s)
  case Nil
  then show ?case by simp
next
  case (Cons n ns)
  from publish_apps_ConsD [OF Cons.prems(1)]
  obtain sa where a: "publish_app h cp pd fenv (YStr n) s = (sa, None)"
    and rest: "publish_apps h cp pd fenv (map YStr ns) sa = (s1, None)"
    by auto
  show ?case
    using Cons.IH [OF rest] publish_app_step(1) [OF a] by simp
qed

lemma publish_apps_keeps_name:
  "publish_apps h cp pd fenv (map YStr ns) s = (s1, None) \<Longrightarrow>
   \<forall>n \<in> set ns. q \<noteq> link_path h n \<Longrightarrow> names s q = Some j \<Longrightarrow> names s1 q = Some j"
proof (induction ns arbitrary: s)
  case Nil
  then show ?case by simp
next
  case (Cons n ns)
  from publish_apps_ConsD [OF Cons.prems(1)]
  obtain sa where a: "publish_app h cp pd fenv (YStr n) s = (sa, None)"
    and rest: "publish_apps h cp pd fenv (map YStr ns) sa = (s1, None)"
    by auto
  have "names sa q = Some j"
    using publish_app_step(5) [OF a, of q j] Cons.prems by simp
  then show ?case
    using Cons.IH [OF rest] Cons.prems(2) by simp
qed

lemma publish_apps_keeps_link:
  "publish_apps h cp pd fenv (map YStr ns) s = (s1, None) \<Longrightarrow>
   \<forall>n \<in> set ns. plain_name n \<Longrightarrow>
   names s (get_trampoline_bin h) = Some t \<Longrightarrow> names s q = Some t \<Longrightarrow> names s1 q = Some t"
proof (induction ns arbitrary: s)
  case Nil
  then show ?case by simp
next
  case (Cons n ns)
  from publish_apps_ConsD [OF Cons.prems(1)]
  obtain sa where a: "publish_app h cp pd fenv (YStr n) s = (sa, None)"
    and rest: "publish_apps h cp pd fenv (map YStr ns) sa = (s1, None)"
    by auto
  have ne: "get_trampoline_bin h \<noteq> link_path h n"
    using Cons.prems(2) link_path_neq_trampoline [of n h] by auto
  have t: "names sa (get_trampoline_bin h) = Some t"
    using publish_app_step(5) [OF a, of "get_trampoline_bin h" t] ne Cons.prems(3) by simp
  have "names sa q = Some t"
  proof (cases "q = link_path h n")
    case True
    then show ?thesis
      using publish_app_step(7) [OF a] ne t by auto
  next
    case False
    then show ?thesis
      using publish_app_step(5) [OF a, of q t] Cons.prems(4) by simp
  qed
  then show ?case
    using Cons.IH [OF rest _ t] Cons.prems(2) by simp
qed

lemma published_run:
  "published h ns s \<Longrightarrow> \<forall>n \<in> set ns. plain_name n \<Longrightarrow>
   publish_apps h cp pd fenv (map YStr ns) s =
     (s\<lparr>contents :=
          fold (store_text (\<lambda>n. inode_of s (config_path h n)) (config_text cp pd fenv)) ns
            (contents s)\<rparr>, None)"
proof (induction ns arbitrary: s)
  case Nil
  then show ?case by simp
next
  case (Cons n ns)
  let ?c = "config_path h n" and ?l = "link_path h n" and ?t = "get_trampoline_bin h"
  let ?sa = "s\<lparr>contents := (contents s)(inode_of s ?c \<mapsto> config_text cp pd fenv n)\<rparr>"
  from Cons.prems(1) obtain t i where
    t: "names s ?t = Some t" "names s ?l = Some t" and
    i: "names s ?c = Some i" and
    d: "?c \<notin> dirs s" "?l \<notin> dirs s" "parent ?l \<in> dirs s"
    by (auto simp: published_def)
  have ne: "?t \<noteq> ?l"
    using Cons.prems(2) link_path_neq_trampoline [of n h] by auto
  have same: "(names s)(?l := None, ?l \<mapsto> t) = names s"
    using t(2) by (auto simp: fun_eq_iff)
  have step: "publish_app h cp pd fenv (YStr n) s = (?sa, None)"
    using t i d ne same
    by (simp add: publish_app_def write_text_def unlink_missing_ok_def link_def
        config_text_def inode_of_def)
  have pub: "published h ns ?sa"
    using Cons.prems(1) by (auto simp: published_def)
  have ino: "\<And>p. inode_of ?sa p = inode_of s p"
    by (simp add: inode_of_def)
  show ?case
    using Cons.IH [OF pub] Cons.prems(2) step by (simp add: ino store_text_def)
qed

lemma first_run:
  "publish_apps h cp pd fenv (map YStr ns) s = (s1, None) \<Longrightarrow>
   \<forall>n \<in> set ns. plain_name n \<Longrightarrow>
   published h ns s1 \<and>
   contents s1 =
     fold (store_text (\<lambda>n. inode_of s1 (config_path h n)) (config_text cp pd fenv)) ns (contents s)"
proof (induction ns arbitrary: s)
  case Nil
  then show ?case
    by (simp add: published_def)
next
  case (Cons n ns)
  let ?c = "config_path h n" and ?l = "link_path h n" and ?t = "get_trampoline_bin h"
  from publish_apps_ConsD [OF Cons.prems(1)]
  obtain sa where a: "publish_app h cp pd fenv (YStr n) s = (sa, None)"
    and rest: "publish_apps h cp pd fenv (map YStr ns) sa = (s1, None)"
    by auto
  have plain: "plain_name n" "\<forall>m \<in> set ns. plain_name m"
    using Cons.prems(2) by simp_all
  have ih: "published h ns s1"
    "contents s1 =
       fold (store_text (\<lambda>n. inode_of s1 (config_path h n)) (config_text cp pd fenv)) ns (contents sa)"
    using Cons.IH [OF rest plain(2)] by simp_all
  have ne: "?t \<noteq> ?l"
    using plain(1) link_path_neq_trampoline [of n h] by auto
  obtain t where t: "names sa ?l = Some t" "names sa ?t = Some t"
    using publish_app_step(7) [OF a] ne by auto
  obtain i where i: "names sa ?c = Some i"
    "contents sa = (contents s)(i \<mapsto> config_text cp pd fenv n)"
    using publish_app_step(8) [OF a] by auto
  have t1: "names s1 ?t = Some t"
    using rest plain(2) t(2) t(2) by (rule publish_apps_keeps_link)
  have l1: "names s1 ?l = Some t"
    using rest plain(2) t(2) t(1) by (rule publish_apps_keeps_link)
  have c1: "names s1 ?c = Some i"
  proof (rule publish_apps_keeps_name [OF rest _ i(1)])
    show "\<forall>m \<in> set ns. ?c \<noteq> link_path h m"
    proof
      fix m
      assume "m \<in> set ns"
      then have "plain_name m"
        using plain(2) by simp
      then show "?c \<noteq> link_path h m"
        using link_path_neq_config_path [of m n h] plain(1) by auto
    qed
  qed
  have d1: "dirs s1 = dirs s"
    using publish_apps_dirs [OF rest] publish_app_step(1) [OF a] by simp
  have pub: "published h (n # ns) s1"
    using ih(1) t1 l1 c1 d1 publish_app_step(2,3,4) [OF a]
    by (auto simp: published_def)
  have "inode_of s1 ?c = i"
    using c1 by (simp add: inode_of_def)
  then have "contents s1 =
     fold (store_text (\<lambda>n. inode_of s1 (config_path h n)) (config_text cp pd fenv)) (n # ns)
       (contents s)"
    using ih(2) i(2) by (simp add: store_text_def)
  with pub show ?case ..
qed

lemma store_text_same:
  "f n = f a \<Longrightarrow> store_text f g n (c(f a \<mapsto> x)) = store_text f g n c"
  by (simp add: store_text_def)

lemma store_text_twist:
  "f n \<noteq> f a \<Longrightarrow> store_text f g n (c(f a \<mapsto> x)) = (store_text f g n c)(f a \<mapsto> x)"
  by (simp add: store_text_def fun_upd_twist)

lemma fold_upd_overwrite:
  "store_text f g a (fold (store_text f g) ns (c(f a \<mapsto> x))) =
   store_text f g a (fold (store_text f g) ns c)"
proof (induction ns arbitrary: c)
  case Nil
  show ?case
    unfolding fold_simps by (rule store_text_same [OF refl])
next
  case (Cons n ns)
  show ?case
  proof (cases "f n = f a")
    case True
    then show ?thesis
      unfolding fold_simps by (simp only: store_text_same)
  next
    case False
    then have tw: "store_text f g n (c(f a \<mapsto> x)) = (store_text f g n c)(f a \<mapsto> x)"
      by (rule store_text_twist)
    show ?thesis
      unfolding fold_simps tw by (rule Cons.IH)
  qed
qed

lemma fold_upd_idem:
  "fold (store_text f g) ns (fold (store_text f g) ns c) = fold (store_text f g) ns c"
proof (induction ns arbitrary: c rule: rev_induct)
  case Nil
  then show ?case by simp
next
  case (snoc a ns)
  let ?F = "fold (store_text f g) ns"
  have e: "store_text f g a (?F c) = (?F c)(f a \<mapsto> g a)"
    by (simp add: store_text_def)
  have "store_text f g a (?F (store_text f g a (?F c))) =
      store_text f g a (?F ((?F c)(f a \<mapsto> g a)))"
    by (simp only: e)
  also have "\<dots> = store_text f g a (?F (?F c))"
    by (rule fold_upd_overwrite)
  also have "\<dots> = store_text f g a (?F c)"
    by (simp only: snoc.IH)
  finally show ?case
    by simp
qed

lemma publish_apps_twice:
  assumes "\<forall>n \<in> set ns. plain_name n"
    and "publish_apps h cp pd fenv (map YStr ns) s = (s1, None)"
  shows "publish_apps h cp pd fenv (map YStr ns) s1 = (s1, None)"
proof -
  let ?F = "fold (store_text (\<lambda>n. inode_of s1 (config_path h n)) (config_text cp pd fenv)) ns"
  have f: "published h ns s1" "contents s1 = ?F (contents s)"
    using first_run [OF assms(2,1)] by simp_all
  have "publish_apps h cp pd fenv (map YStr ns) s1 = (s1\<lparr>contents := ?F (contents s1)\<rparr>, None)"
    using f(1) assms(1) by (rule published_run)
  moreover have "?F (contents s1) = contents s1"
    unfolding f(2) by (rule fold_upd_idem)
  ultimately show ?thesis
    by simp
qed

lemma publish_apps_other_names:
  "publish_apps h cp pd fenv (map YStr ns) s = (s1, None) \<Longrightarrow>
   \<forall>n \<in> set ns. q \<noteq> link_path h n \<and> q \<noteq> config_path h n \<Longrightarrow> names s1 q = names s q"
proof (induction ns arbitrary: s)
  case Nil
  then show ?case by simp
next
  case (Cons n ns)
  from publish_apps_ConsD [OF Cons.prems(1)]
  obtain sa where a: "publish_app h cp pd fenv (YStr n) s = (sa, None)"
    and rest: "publish_apps h cp pd fenv (map YStr ns) sa = (s1, None)"
    by auto
  have "names sa q = names s q"
    using publish_app_step(6) [OF a, of q] Cons.prems(2) by simp
  then show ?case
    using Cons.IH [OF rest] Cons.prems(2) by simp
qed

lemma nested_paths:
  "Path ''/h/.pixi/bin/trampoline_configuration/trampoline_configuration'' =
     PurePath ''/'' [''h'', ''.pixi'', ''bin'', ''trampoline_configuration'',
       ''trampoline_configuration'']"
  "config_path example_home ''a'' =
     PurePath ''/'' [''h'', ''.pixi'', ''bin'', ''trampoline_configuration'', ''a.json'']"
  "link_path example_home ''a'' = PurePath ''/'' [''h'', ''.pixi'', ''bin'', ''a'']"
  "config_path example_home ''trampoline_configuration/a.json'' =
     PurePath ''/'' [''h'', ''.pixi'', ''bin'', ''trampoline_configuration'',
       ''trampoline_configuration'', ''a.json.json'']"
  "link_path example_home ''trampoline_configuration/a.json'' =
     PurePath ''/'' [''h'', ''.pixi'', ''bin'', ''trampoline_configuration'', ''a.json'']"
  by (simp_all add: config_path_def link_path_def config_dir_def
      bin_dir_def example_home_def truediv_def Path_def splitroot_def sep_def)

lemma aliased_run:
  "expose_entry example_home example_env ''/usr/bin''
     (example_entry [''a'', ''trampoline_configuration/a.json'']) example_fs_nested =
     (example_aliased, None)"
  by (simp add: expose_entry_def example_entry_def example_values publish_app_def
      example_fs_nested_def example_aliased_def write_text_def unlink_missing_ok_def link_def
      parent_def example_paths nested_paths config_text_def fun_upd_twist
      numeral_2_eq_2 numeral_3_eq_3)

lemma aliased_run_again:
  "expose_entry example_home example_env ''/usr/bin''
     (example_entry [''a'', ''trampoline_configuration/a.json'']) example_aliased =
     (example_aliased\<lparr>contents := (contents example_aliased)
        (0 \<mapsto> config_text ''/e'' ''/e/bin'' [(''CONDA_PREFIX'', ''/e''), (''FOO'', ''1'')] ''a'')\<rparr>,
      None)"
  by (simp add: expose_entry_def example_entry_def example_values publish_app_def
      example_aliased_def write_text_def unlink_missing_ok_def link_def
      parent_def example_paths nested_paths config_text_def fun_upd_twist
      numeral_2_eq_2 numeral_3_eq_3)

lemma config_text_not_ELF: "config_text cp pd fenv n \<noteq> ''ELF''"
  by (simp add: config_text_def json_dumps_def config_def)

text \<open>
  Claim C8, as amended. Take an entry whose names are single path components. When a
  run of \<open>expose_entry\<close> succeeds, a second run on the file system it left, with the same
  inputs, succeeds too and leaves that file system as it is: every configuration file
  has the same bytes and every link names the same inode. That inode is the one the
  dispatch binary had before the first run and has after it, and every configuration
  file can be read. The claim as written fails for names with a slash: the link of
  one name can be the configuration file of another.
\<close>

theorem publication_idempotent:
  assumes "\<forall>name. YStr name \<in> set (apps e) \<longrightarrow> plain_name name"
    and "expose_entry h env_vars current_path e s = (s1, None)"
  shows "expose_entry h env_vars current_path e s1 = (s1, None)
     \<and> (\<forall>name. YStr name \<in> set (apps e) \<longrightarrow>
          (\<exists>t. names s (get_trampoline_bin h) = Some t
             \<and> names s1 (get_trampoline_bin h) = Some t
             \<and> names s1 (link_path h name) = Some t)
          \<and> (\<exists>txt. read_text s1 (config_path h name) = Inr txt))"
proof -
  let ?pd = "path_diff (dict_get env_vars ''PATH'' []) current_path"
  let ?fenv = "filtered_env env_vars (exclude_env_vars e)"
  from assms(2) obtain cp where cp: "map_of env_vars ''CONDA_PREFIX'' = Some cp" "cp \<noteq> []"
    and run: "publish_apps h cp ?pd ?fenv (apps e) s = (s1, None)"
    by (auto simp: expose_entry_def Let_def split: option.splits if_splits)
  obtain ns where ns: "apps e = map YStr ns"
    using publish_apps_strings [OF run] by auto
  have plain: "\<forall>n \<in> set ns. plain_name n"
    using assms(1) ns by auto
  have run1: "publish_apps h cp ?pd ?fenv (map YStr ns) s = (s1, None)"
    using run ns by simp
  have "publish_apps h cp ?pd ?fenv (map YStr ns) s1 = (s1, None)"
    using plain run1 by (rule publish_apps_twice)
  then have again: "expose_entry h env_vars current_path e s1 = (s1, None)"
    using cp ns by (simp add: expose_entry_def)
  have pub: "published h ns s1"
    using first_run [OF run1 plain] by simp
  have tb: "names s1 (get_trampoline_bin h) = names s (get_trampoline_bin h)"
  proof (rule publish_apps_other_names [OF run1])
    show "\<forall>n \<in> set ns. get_trampoline_bin h \<noteq> link_path h n
        \<and> get_trampoline_bin h \<noteq> config_path h n"
      using plain link_path_neq_trampoline [of _ h] config_path_neq_trampoline [of _ h]
      by (metis)
  qed
  have "\<forall>name. YStr name \<in> set (apps e) \<longrightarrow>
          (\<exists>t. names s (get_trampoline_bin h) = Some t
             \<and> names s1 (get_trampoline_bin h) = Some t
             \<and> names s1 (link_path h name) = Some t)
          \<and> (\<exists>txt. read_text s1 (config_path h name) = Inr txt)"
  proof (intro allI impI)
    fix name
    assume "YStr name \<in> set (apps e)"
    then have n: "name \<in> set ns"
      using ns by auto
    with pub obtain t i where "names s1 (get_trampoline_bin h) = Some t"
      "names s1 (link_path h name) = Some t" "names s1 (config_path h name) = Some i"
      "config_path h name \<notin> dirs s1"
      by (auto simp: published_def)
    then show "(\<exists>t. names s (get_trampoline_bin h) = Some t
             \<and> names s1 (get_trampoline_bin h) = Some t
             \<and> names s1 (link_path h name) = Some t)
          \<and> (\<exists>txt. read_text s1 (config_path h name) = Inr txt)"
      using tb by (auto simp: read_text_def split: option.splits)
  qed
  with again show ?thesis ..
qed

theorem publication_idempotent_witness:
  "plain_name ''tool''
   \<and> expose_entry example_home example_env ''/usr/bin'' (example_entry [''tool'']) example_fs =
       (example_published, None)
   \<and> expose_entry example_home example_env ''/usr/bin'' (example_entry [''tool''])
       example_published = (example_published, None)
   \<and> names example_published (link_path example_home ''tool'') =
       names example_fs (get_trampoline_bin example_home)"
proof -
  have p: "\<forall>name. YStr name \<in> set (apps (example_entry [''tool''])) \<longrightarrow> plain_name name"
    by (simp add: example_entry_def plain_name_def sep_def)
  have m: "YStr ''tool'' \<in> set (apps (example_entry [''tool'']))"
    by (simp add: example_entry_def)
  show ?thesis
    using publication_idempotent [OF p example_run] example_run p m
    by (auto simp: example_fs_def)
qed

theorem publication_idempotent_counterexample:
  "expose_entry example_home example_env ''/usr/bin''
     (example_entry [''a'', ''trampoline_configuration/a.json'']) example_fs_nested =
     (example_aliased, None)
   \<and> snd (expose_entry example_home example_env ''/usr/bin''
          (example_entry [''a'', ''trampoline_configuration/a.json'']) example_aliased) = None
   \<and> read_text example_aliased (config_path example_home ''a'') = Inr ''ELF''
   \<and> read_text (fst (expose_entry example_home example_env ''/usr/bin''
          (example_entry [''a'', ''trampoline_configuration/a.json'']) example_aliased))
        (config_path example_home ''a'') =
       Inr (json_dumps (config ''/e/bin/a'' ''/e/bin'' [(''CONDA_PREFIX'', ''/e''), (''FOO'', ''1'')]))
   \<and> json_dumps (config ''/e/bin/a'' ''/e/bin'' [(''CONDA_PREFIX'', ''/e''), (''FOO'', ''1'')])
       \<noteq> ''ELF''"
proof -
  have e: "path_str (exe_path ''/e'' ''a'') = ''/e/bin/a''"
    by (simp add: exe_path_def truediv_def Path_def splitroot_def sep_def path_str_def)
  have r1: "read_text example_aliased (config_path example_home ''a'') = Inr ''ELF''"
    by (simp add: read_text_def example_aliased_def nested_paths example_paths)
  have r2: "read_text (example_aliased\<lparr>contents := (contents example_aliased)
        (0 \<mapsto> config_text ''/e'' ''/e/bin'' [(''CONDA_PREFIX'', ''/e''), (''FOO'', ''1'')] ''a'')\<rparr>)
        (config_path example_home ''a'') =
      Inr (config_text ''/e'' ''/e/bin'' [(''CONDA_PREFIX'', ''/e''), (''FOO'', ''1'')] ''a'')"
    by (simp add: read_text_def example_aliased_def nested_paths example_paths)
  show ?thesis
    using config_text_not_ELF [of "''/e''" "''/e/bin''" "[(''CONDA_PREFIX'', ''/e''), (''FOO'', ''1'')]" "''a''"]
    by (simp add: aliased_run aliased_run_again r1 r2 del: fun_upd_apply)
       (simp add: config_text_def e)
qed

section \<open>The executable path of a published name\<close>










end
